theory Spec2Isabelle
  imports Complex_Main
begin

section \<open>Data model\<close>

text \<open>
  JavaScript strings are sequences of UTF-16 code units; they are modelled as lists of
  code-unit values. \<open>str\<close> embeds an ASCII literal.
\<close>

type_synonym jsstring = "nat list"

definition str :: "string \<Rightarrow> jsstring" where
  "str s = map of_char s"

text \<open>
  A node object. \<open>nid\<close> is the field \<open>id\<close>, \<open>x_pos\<close> and \<open>y_pos\<close> are \<open>x\<close> and \<open>y\<close>
  (\<open>None\<close> is JavaScript's \<open>null\<close>), \<open>radius\<close> is \<open>_radius\<close>, and \<open>depth\<close>, \<open>vIndex\<close>,
  \<open>visited\<close>, \<open>vCount\<close>, \<open>maxDepth\<close> are the annotation fields \<open>_depth\<close>, \<open>_vIndex\<close>,
  \<open>_visited\<close>, \<open>_vCount\<close>, \<open>_maxDepth\<close>. Numbers are modelled as exact reals and integers.
\<close>

record node =
  nid :: jsstring
  name :: jsstring
  parentId :: "jsstring option"
  collapsed :: bool
  x_pos :: "real option"
  y_pos :: "real option"
  vx :: real
  vy :: real
  fx :: "real option"
  fy :: "real option"
  radius :: "real option"
  depth :: int
  vIndex :: int
  visited :: bool
  vCount :: int
  maxDepth :: int

record edge =
  eid :: jsstring
  source :: jsstring
  target :: jsstring

section \<open>GraphStore\<close>

text \<open>
  The store's fields \<open>_nodes\<close>, \<open>_edges\<close> and \<open>_nodeMap\<close>. Listeners only receive the
  published arrays and do not take part in the repair, so \<open>_emit\<close> is left out.
\<close>

record graph_store =
  store_nodes :: "node list"
  store_edges :: "edge list"
  store_nodeMap :: "jsstring \<rightharpoonup> node"

text \<open>The separator of the deduplication key is the single code unit U+2192.\<close>

definition arrow :: nat where
  "arrow = 8594"

definition edge_key :: "edge \<Rightarrow> jsstring" where
  "edge_key e = source e @ [arrow] @ target e"

text \<open>Step 2 of the repair: the loop over the edges with \<open>edgeKeys\<close>, \<open>uniqueEdges\<close>, \<open>fixed\<close>.\<close>

fun dedup_loop :: "edge list \<Rightarrow> jsstring set \<times> edge list \<times> nat \<Rightarrow> jsstring set \<times> edge list \<times> nat" where
  "dedup_loop [] st = st"
| "dedup_loop (e # es) (edgeKeys, uniqueEdges, fixed) =
     (let key = edge_key e in
      if key \<notin> edgeKeys then dedup_loop es (insert key edgeKeys, uniqueEdges @ [e], fixed)
      else dedup_loop es (edgeKeys, uniqueEdges, fixed + 1))"

text \<open>\<open>a || b\<close> on ids: the empty string and \<open>null\<close> are falsy.\<close>

definition or_else :: "jsstring option \<Rightarrow> jsstring option \<Rightarrow> jsstring option" where
  "or_else a b = (case a of None \<Rightarrow> b | Some s \<Rightarrow> if s = [] then b else Some s)"

text \<open>Step 3: \<open>roots.length > 0 ? roots[0].id : (this._nodes[0]?.id || null)\<close>.\<close>

definition find_rootId :: "node list \<Rightarrow> edge list \<Rightarrow> jsstring option" where
  "find_rootId ns es =
     (let targeted = set (map target es);
          roots = filter (\<lambda>n. nid n \<notin> targeted) ns
      in case roots of
           r # _ \<Rightarrow> Some (nid r)
         | [] \<Rightarrow> or_else (case ns of [] \<Rightarrow> None | n # _ \<Rightarrow> Some (nid n)) None)"

definition synth_edge :: "jsstring \<Rightarrow> jsstring \<Rightarrow> edge" where
  "synth_edge p c = \<lparr>eid = p @ str ''->'' @ c, source = p, target = c\<rparr>"

definition connected_ids :: "jsstring option \<Rightarrow> edge list \<Rightarrow> jsstring set" where
  "connected_ids rootId es =
     (case rootId of None \<Rightarrow> {} | Some r \<Rightarrow> {r}) \<union> set (map source es) \<union> set (map target es)"

text \<open>Step 4: the loop over the nodes that pushes an edge for every dangling node.\<close>

fun reconnect_loop ::
  "jsstring set \<Rightarrow> jsstring option \<Rightarrow> jsstring set \<Rightarrow> node list \<Rightarrow> edge list \<times> nat \<Rightarrow> edge list \<times> nat" where
  "reconnect_loop nodeIds rootId conn [] st = st"
| "reconnect_loop nodeIds rootId conn (n # ns) (es, fixed) =
     (if nid n \<notin> conn \<and> Some (nid n) \<noteq> rootId then
        (let parent = or_else (parentId n) rootId;
             es' = (case parent of
                      Some p \<Rightarrow>
                        if p \<in> nodeIds then es @ [synth_edge p (nid n)]
                        else (case rootId of Some r \<Rightarrow> es @ [synth_edge r (nid n)] | None \<Rightarrow> es)
                    | None \<Rightarrow> (case rootId of Some r \<Rightarrow> es @ [synth_edge r (nid n)] | None \<Rightarrow> es))
         in reconnect_loop nodeIds rootId conn ns (es', fixed + 1))
      else reconnect_loop nodeIds rootId conn ns (es, fixed))"

definition build_nodeMap :: "node list \<Rightarrow> (jsstring \<rightharpoonup> node)" where
  "build_nodeMap ns = map_of (rev (map (\<lambda>n. (nid n, n)) ns))"

definition ensureGraphIntegrity :: "graph_store \<Rightarrow> nat \<times> graph_store" where
  "ensureGraphIntegrity st =
     (let ns = store_nodes st;
          nodeIds = set (map nid ns);
          beforeEdges = length (store_edges st);
          es1 = filter (\<lambda>e. source e \<in> nodeIds \<and> target e \<in> nodeIds) (store_edges st);
          fixed1 = beforeEdges - length es1;
          (edgeKeys, es2, fixed2) = dedup_loop es1 ({}, [], fixed1);
          rootId = find_rootId ns es2;
          conn = connected_ids rootId es2;
          (es3, fixed3) = reconnect_loop nodeIds rootId conn ns (es2, fixed2)
      in (fixed3, st\<lparr>store_edges := es3, store_nodeMap := build_nodeMap ns\<rparr>))"

text \<open>
  \<open>loadGraph\<close> and \<open>refreshGraph\<close>; an argument that is not an array is \<open>None\<close>.
\<close>

definition loadGraph :: "graph_store \<Rightarrow> node list option \<Rightarrow> edge list option \<Rightarrow> nat \<times> graph_store" where
  "loadGraph st ns es =
     ensureGraphIntegrity
       (st\<lparr>store_nodes := (case ns of Some a \<Rightarrow> a | None \<Rightarrow> []),
            store_edges := (case es of Some a \<Rightarrow> a | None \<Rightarrow> [])\<rparr>)"

definition refreshGraph :: "graph_store \<Rightarrow> node list option \<Rightarrow> edge list option \<Rightarrow> nat \<times> graph_store" where
  "refreshGraph st ns es =
     ensureGraphIntegrity
       (st\<lparr>store_nodes := (case ns of Some a \<Rightarrow> a | None \<Rightarrow> store_nodes st),
            store_edges := (case es of Some a \<Rightarrow> a | None \<Rightarrow> store_edges st)\<rparr>)"

definition new_store :: graph_store where
  "new_store = \<lparr>store_nodes = [], store_edges = [], store_nodeMap = Map.empty\<rparr>"

subsection \<open>Notions used to state the store's properties\<close>

text \<open>
  \<open>kept K es\<close> is the list \<open>uniqueEdges\<close> that the deduplication loop builds from \<open>es\<close>
  when it starts with the key set \<open>K\<close>. \<open>valid_edges\<close> is the result of step 1, \<open>surviving\<close> of
  steps 1 and 2, \<open>chosen_root\<close> is \<open>rootId\<close>, \<open>isolated\<close> are the nodes for which step 4 pushes an
  edge, and \<open>synthesized\<close> are the edges it pushes. Lemma \<open>ensure_eq\<close> below proves that the
  repair computes exactly these.
\<close>

definition edge_pair :: "edge \<Rightarrow> jsstring \<times> jsstring" where
  "edge_pair e = (source e, target e)"

fun kept :: "jsstring set \<Rightarrow> edge list \<Rightarrow> edge list" where
  "kept K [] = []"
| "kept K (e # es) = (if edge_key e \<in> K then kept K es else e # kept (insert (edge_key e) K) es)"

definition dangling :: "jsstring set \<Rightarrow> jsstring option \<Rightarrow> node list \<Rightarrow> node list" where
  "dangling conn rootId ns = filter (\<lambda>n. nid n \<notin> conn \<and> Some (nid n) \<noteq> rootId) ns"

definition reconnect_source :: "jsstring set \<Rightarrow> jsstring \<Rightarrow> node \<Rightarrow> jsstring" where
  "reconnect_source nodeIds r n =
     (case parentId n of None \<Rightarrow> r | Some p \<Rightarrow> if p \<noteq> [] \<and> p \<in> nodeIds then p else r)"

definition valid_edges :: "node list \<Rightarrow> edge list \<Rightarrow> edge list" where
  "valid_edges ns es = filter (\<lambda>e. source e \<in> set (map nid ns) \<and> target e \<in> set (map nid ns)) es"

definition surviving :: "node list \<Rightarrow> edge list \<Rightarrow> edge list" where
  "surviving ns es = kept {} (valid_edges ns es)"

definition chosen_root :: "node list \<Rightarrow> edge list \<Rightarrow> jsstring option" where
  "chosen_root ns es = find_rootId ns (surviving ns es)"

definition isolated :: "node list \<Rightarrow> edge list \<Rightarrow> node list" where
  "isolated ns es = dangling (connected_ids (chosen_root ns es) (surviving ns es)) (chosen_root ns es) ns"

definition synthesized :: "node list \<Rightarrow> edge list \<Rightarrow> edge list" where
  "synthesized ns es =
     (case chosen_root ns es of
        None \<Rightarrow> []
      | Some r \<Rightarrow> map (\<lambda>n. synth_edge (reconnect_source (set (map nid ns)) r n) (nid n)) (isolated ns es))"

definition endpoints :: "edge list \<Rightarrow> jsstring set" where
  "endpoints es = set (map source es) \<union> set (map target es)"

definition edge_rel :: "edge list \<Rightarrow> (jsstring \<times> jsstring) set" where
  "edge_rel es = set (map edge_pair es)"

definition no_incoming :: "edge list \<Rightarrow> node \<Rightarrow> bool" where
  "no_incoming es n = (nid n \<notin> set (map target es))"

subsection \<open>Concrete graphs\<close>

definition mk_node :: "string \<Rightarrow> string \<Rightarrow> string option \<Rightarrow> node" where
  "mk_node i nm p =
     \<lparr>nid = str i, name = str nm, parentId = map_option str p, collapsed = False,
      x_pos = None, y_pos = None, vx = 0, vy = 0, fx = None, fy = None, radius = None,
      depth = 0, vIndex = 0, visited = False, vCount = 0, maxDepth = 0\<rparr>"

definition mk_edge :: "string \<Rightarrow> string \<Rightarrow> string \<Rightarrow> edge" where
  "mk_edge i s t = \<lparr>eid = str i, source = str s, target = str t\<rparr>"

definition dup_id_nodes :: "node list" where
  "dup_id_nodes = [mk_node ''r'' ''r'' None, mk_node ''d'' ''d'' (Some ''r''), mk_node ''d'' ''d2'' (Some ''r'')]"

definition two_nodes :: "node list" where
  "two_nodes = [mk_node ''root'' ''root'' None, mk_node ''A'' ''A'' (Some ''root'')]"

definition dup_edges :: "edge list" where
  "dup_edges = [mk_edge ''e1'' ''root'' ''A'', mk_edge ''e2'' ''root'' ''A'']"

definition arrow_nodes :: "node list" where
  "arrow_nodes =
     [ (mk_node ''a'' ''a'' None),
       (mk_node ''a'' ''ab'' None)\<lparr>nid := str ''a'' @ [arrow] @ str ''b''\<rparr>,
       (mk_node ''a'' ''bc'' (Some ''a''))\<lparr>nid := str ''b'' @ [arrow] @ str ''c''\<rparr>,
       (mk_node ''c'' ''c'' None) ]"

definition arrow_edges :: "edge list" where
  "arrow_edges = [\<lparr>eid = str ''e1'', source = str ''a'' @ [arrow] @ str ''b'', target = str ''c''\<rparr>]"

definition detached_nodes :: "node list" where
  "detached_nodes = [mk_node ''root'' ''root'' None, mk_node ''D'' ''D'' (Some ''root''), mk_node ''X'' ''X'' (Some ''D'')]"

definition detached_edges :: "edge list" where
  "detached_edges = [mk_edge ''e1'' ''D'' ''X'']"

definition three_nodes :: "node list" where
  "three_nodes = [mk_node ''root'' ''root'' None, mk_node ''A'' ''A'' (Some ''root''), mk_node ''D'' ''D'' (Some ''root'')]"

definition one_edge :: "edge list" where
  "one_edge = [mk_edge ''e1'' ''root'' ''A'']"

definition chain_nodes :: "node list" where
  "chain_nodes = [mk_node ''root'' ''root'' None, mk_node ''A'' ''A'' (Some ''root''), mk_node ''B'' ''B'' (Some ''A'')]"

definition forest_nodes :: "node list" where
  "forest_nodes = [mk_node ''R1'' ''R1'' None, mk_node ''R2'' ''R2'' None,
                   mk_node ''X'' ''X'' (Some ''R1''), mk_node ''Y'' ''Y'' (Some ''R2'')]"

definition forest_edges :: "edge list" where
  "forest_edges = [mk_edge ''e1'' ''R1'' ''X'', mk_edge ''e2'' ''R2'' ''Y'']"
section \<open>ForceLayout\<close>

text \<open>
  The engine object. \<open>mode\<close> is a string that the code compares with \<open>'free'\<close>, \<open>'strict'\<close> and
  \<open>'radial'\<close>; any other string is \<open>OtherMode\<close>. \<open>raf\<close> tells whether a frame callback is scheduled.
  \<open>onTick\<close> tells whether a callback is installed, and \<open>calls\<close> records its invocations by their
  second argument (\<open>True\<close> is the final call).
\<close>

datatype layout_mode = Free | Strict | Radial | OtherMode

record layout =
  nodes :: "node list"
  edges :: "edge list"
  alpha :: real
  running :: bool
  raf :: bool
  mode :: layout_mode
  onTick :: bool
  calls :: "bool list"

definition repulsion :: real where "repulsion = - 280"
definition linkDistance :: real where "linkDistance = 80"
definition linkStrength :: real where "linkStrength = 0.35"
definition centerStrength :: real where "centerStrength = 0.03"
definition alphaDecay :: real where "alphaDecay = 0.018"
definition alphaMin :: real where "alphaMin = 0.005"
definition collideBuffer :: real where "collideBuffer = 6"

subsection \<open>Tree depths and sibling order\<close>

text \<open>
  Node objects are the slots of the node array, so a reference to a node is an index.
  \<open>index_map\<close> is \<open>new Map(nodes.map(n => [n.id, n]))\<close>: the last node with an id wins.
\<close>

definition index_map :: "node list \<Rightarrow> (jsstring \<rightharpoonup> nat)" where
  "index_map ns = map_of (rev (zip (map nid ns) [0..<length ns]))"

definition reset_node :: "node \<Rightarrow> node" where
  "reset_node n = n\<lparr>depth := - 1, vIndex := 0, visited := False, vCount := 1, maxDepth := 0\<rparr>"

definition build_children :: "node list \<Rightarrow> edge list \<Rightarrow> (jsstring \<rightharpoonup> jsstring list)" where
  "build_children ns es =
     fold (\<lambda>e m. if source e \<in> set (map nid ns) \<and> target e \<in> set (map nid ns)
                  then m(source e \<mapsto> (case m (source e) of Some cs \<Rightarrow> cs | None \<Rightarrow> []) @ [target e])
                  else m)
          es (map_of (map (\<lambda>n. (nid n, [])) ns))"

definition build_incoming :: "node list \<Rightarrow> edge list \<Rightarrow> (jsstring \<rightharpoonup> nat)" where
  "build_incoming ns es =
     fold (\<lambda>e m. if source e \<in> set (map nid ns) \<and> target e \<in> set (map nid ns)
                  then m(target e \<mapsto> (case m (target e) of Some c \<Rightarrow> c | None \<Rightarrow> 0) + 1)
                  else m)
          es (map_of (map (\<lambda>n. (nid n, 0)) ns))"

definition find_roots :: "node list \<Rightarrow> (jsstring \<rightharpoonup> nat) \<Rightarrow> nat list" where
  "find_roots ns incomingCount =
     (let roots = filter (\<lambda>k. (case incomingCount (nid (ns ! k)) of Some c \<Rightarrow> c | None \<Rightarrow> 0) = 0)
                         [0..<length ns]
      in if roots = [] \<and> length ns > 0 then [0] else roots)"

definition bfs_init :: "nat list \<Rightarrow> node list \<Rightarrow> node list \<times> jsstring set \<times> nat list" where
  "bfs_init roots ns =
     fold (\<lambda>r (ns, bfsVisited, queue).
             (ns[r := (ns ! r)\<lparr>depth := 0\<rparr>], insert (nid (ns ! r)) bfsVisited, queue @ [r]))
          roots (ns, {}, [])"

fun bfs_children ::
  "(jsstring \<rightharpoonup> nat) \<Rightarrow> nat \<Rightarrow> jsstring list \<Rightarrow> node list \<times> jsstring set \<times> nat list
     \<Rightarrow> node list \<times> jsstring set \<times> nat list" where
  "bfs_children nodeMap cur [] st = st"
| "bfs_children nodeMap cur (childId # cs) (ns, bfsVisited, queue) =
     (if childId \<in> bfsVisited then bfs_children nodeMap cur cs (ns, bfsVisited, queue)
      else case nodeMap childId of
             None \<Rightarrow> bfs_children nodeMap cur cs (ns, bfsVisited, queue)
           | Some child \<Rightarrow>
               bfs_children nodeMap cur cs
                 (ns[child := (ns ! child)\<lparr>depth := depth (ns ! cur) + 1\<rparr>],
                  insert childId bfsVisited, queue @ [child]))"

partial_function (option) bfs_loop ::
  "(jsstring \<rightharpoonup> nat) \<Rightarrow> (jsstring \<rightharpoonup> jsstring list) \<Rightarrow> node list \<times> jsstring set \<times> nat list
     \<Rightarrow> (node list \<times> jsstring set \<times> nat list) option" where
  "bfs_loop nodeMap childrenMap st =
     (case snd (snd st) of
        [] \<Rightarrow> Some st
      | cur # rest \<Rightarrow>
          bfs_loop nodeMap childrenMap
            (bfs_children nodeMap cur
               (case childrenMap (nid (fst st ! cur)) of Some cs \<Rightarrow> cs | None \<Rightarrow> [])
               (fst st, fst (snd st), rest)))"

declare bfs_loop.simps [code]

definition max_depth :: "node list \<Rightarrow> int" where
  "max_depth ns = fold (\<lambda>n m. if depth n > m then depth n else m) ns 0"

definition fallback_depths :: "node list \<Rightarrow> node list" where
  "fallback_depths ns =
     (let m = max_depth ns in map (\<lambda>n. if depth n = - 1 then n\<lparr>depth := m + 1\<rparr> else n) ns)"

text \<open>
  \<open>Array.prototype.sort\<close> is stable; \<open>sort_by\<close> is the stable insertion sort for a comparator
  \<open>c\<close> in the sense of JavaScript (\<open>c a b \<le> 0\<close> keeps \<open>a\<close> before \<open>b\<close>). The comparator of the
  names, \<open>localeCompare\<close>, belongs to the host and is the parameter \<open>lc\<close> below.
\<close>

fun insert_by :: "('a \<Rightarrow> 'a \<Rightarrow> int) \<Rightarrow> 'a \<Rightarrow> 'a list \<Rightarrow> 'a list" where
  "insert_by c a [] = [a]"
| "insert_by c a (b # bs) = (if c a b \<le> 0 then a # b # bs else b # insert_by c a bs)"

definition sort_by :: "('a \<Rightarrow> 'a \<Rightarrow> int) \<Rightarrow> 'a list \<Rightarrow> 'a list" where
  "sort_by c xs = foldr (insert_by c) xs []"

definition sorted_children ::
  "(jsstring \<Rightarrow> jsstring \<Rightarrow> int) \<Rightarrow> (jsstring \<rightharpoonup> nat) \<Rightarrow> (jsstring \<rightharpoonup> jsstring list) \<Rightarrow> node list
     \<Rightarrow> jsstring \<Rightarrow> jsstring list" where
  "sorted_children lc nodeMap childrenMap ns nodeId =
     map (\<lambda>k. nid (ns ! k))
       (sort_by (\<lambda>a b. lc (name (ns ! a)) (name (ns ! b)))
          (filter (\<lambda>k. \<not> visited (ns ! k))
             (List.map_filter nodeMap (case childrenMap nodeId of Some cs \<Rightarrow> cs | None \<Rightarrow> []))))"

text \<open>
  \<open>visit_all st ids\<close> runs the recursive closure \<open>visit\<close> on every id of \<open>ids\<close> in turn, as the
  loops \<open>for (const c of childIds) visit(c.id)\<close> and \<open>for (const r of sortedRoots) visit(r.id)\<close> do.
  The state is the node array and the map \<open>levels\<close>.
\<close>

partial_function (option) visit_all ::
  "(jsstring \<Rightarrow> jsstring \<Rightarrow> int) \<Rightarrow> (jsstring \<rightharpoonup> nat) \<Rightarrow> (jsstring \<rightharpoonup> jsstring list)
     \<Rightarrow> node list \<times> (int \<rightharpoonup> int) \<Rightarrow> jsstring list \<Rightarrow> (node list \<times> (int \<rightharpoonup> int)) option" where
  "visit_all lc nodeMap childrenMap st ids =
     (case ids of
        [] \<Rightarrow> Some st
      | nodeId # rest \<Rightarrow>
          (case nodeMap nodeId of
             None \<Rightarrow> visit_all lc nodeMap childrenMap st rest
           | Some k \<Rightarrow>
               if visited (fst st ! k) then visit_all lc nodeMap childrenMap st rest
               else
                 (let d = depth (fst st ! k);
                      vi = (case snd st d of Some v \<Rightarrow> v | None \<Rightarrow> 0);
                      ns1 = (fst st)[k := (fst st ! k)\<lparr>visited := True, vIndex := vi\<rparr>];
                      levels1 = (snd st)(d \<mapsto> vi + 1);
                      childIds = sorted_children lc nodeMap childrenMap ns1 nodeId
                  in Option.bind (visit_all lc nodeMap childrenMap (ns1, levels1) childIds)
                       (\<lambda>st2. visit_all lc nodeMap childrenMap st2 rest))))"

declare visit_all.simps [code]

text \<open>The final sweep \<open>for (const n of nodes) if (!n._visited) visit(n.id)\<close>.\<close>

fun sweep ::
  "(jsstring \<Rightarrow> jsstring \<Rightarrow> int) \<Rightarrow> (jsstring \<rightharpoonup> nat) \<Rightarrow> (jsstring \<rightharpoonup> jsstring list)
     \<Rightarrow> nat list \<Rightarrow> node list \<times> (int \<rightharpoonup> int) \<Rightarrow> (node list \<times> (int \<rightharpoonup> int)) option" where
  "sweep lc nodeMap childrenMap [] st = Some st"
| "sweep lc nodeMap childrenMap (k # ks) st =
     (if visited (fst st ! k) then sweep lc nodeMap childrenMap ks st
      else Option.bind (visit_all lc nodeMap childrenMap st [nid (fst st ! k)])
             (sweep lc nodeMap childrenMap ks))"

definition depth_counts :: "node list \<Rightarrow> (int \<rightharpoonup> int)" where
  "depth_counts ns =
     fold (\<lambda>n m. m(depth n \<mapsto> max (case m (depth n) of Some v \<Rightarrow> v | None \<Rightarrow> 0) (vIndex n + 1)))
          ns Map.empty"

definition assign_counts :: "int \<Rightarrow> node list \<Rightarrow> node list" where
  "assign_counts md ns =
     (let depthCounts = depth_counts ns
      in map (\<lambda>n. n\<lparr>vCount := (case depthCounts (depth n) of
                                 Some v \<Rightarrow> if v = 0 then 1 else v | None \<Rightarrow> 1),
                     maxDepth := md\<rparr>) ns)"

definition calcTreeDepths ::
  "(jsstring \<Rightarrow> jsstring \<Rightarrow> int) \<Rightarrow> node list \<Rightarrow> edge list \<Rightarrow> node list option" where
  "calcTreeDepths lc ns es =
     (if ns = [] then Some ns
      else
        (let ns0 = map reset_node ns;
             nodeMap = index_map ns0;
             childrenMap = build_children ns0 es;
             incomingCount = build_incoming ns0 es;
             roots = find_roots ns0 incomingCount
         in Option.bind (bfs_loop nodeMap childrenMap (bfs_init roots ns0)) (\<lambda>st1.
              (let ns2 = fallback_depths (fst st1);
                   md = max_depth ns2;
                   sortedRoots = sort_by (\<lambda>a b. lc (name (ns2 ! a)) (name (ns2 ! b))) roots
               in Option.bind (visit_all lc nodeMap childrenMap (ns2, Map.empty)
                                 (map (\<lambda>r. nid (ns2 ! r)) sortedRoots)) (\<lambda>st3.
                    Option.bind (sweep lc nodeMap childrenMap [0..<length ns] st3) (\<lambda>st4.
                      Some (assign_counts md (fst st4))))))))"

subsection \<open>Strict layout\<close>

definition hasPos :: "node \<Rightarrow> bool" where
  "hasPos n = (x_pos n \<noteq> None \<and> y_pos n \<noteq> None \<and> \<not> (x_pos n = Some 0 \<and> y_pos n = Some 0))"

definition place_strict :: "bool \<Rightarrow> node \<Rightarrow> node" where
  "place_strict onlyUnpositioned n =
     (if onlyUnpositioned \<and> hasPos n then n
      else
        (let targetX = real_of_int (depth n) * 300;
             vc = (if vCount n = 0 then 1 else vCount n);
             spread = (real_of_int vc - 1) * 100;
             targetY = real_of_int (vIndex n) * 100 - spread / 2
         in n\<lparr>x_pos := Some targetX, y_pos := Some targetY, vx := 0, vy := 0\<rparr>))"

text \<open>
  The argument of \<open>applyStrictLayout(opts = {})\<close> as a caller passes it: nothing (or
  \<open>undefined\<close>, so that the default \<open>{}\<close> applies), \<open>null\<close>, a primitive boolean, or an object,
  of which only the property \<open>onlyUnpositioned\<close> is read. \<open>only_unpositioned\<close> is the source's
  \<open>opts.onlyUnpositioned === true\<close>: reading a property of \<open>null\<close> throws, and a primitive has
  no such property, so that \<open>applyStrictLayout(true)\<close> runs with the flag false.
\<close>

datatype js_property = Prop_absent | Prop_bool bool | Prop_other

datatype strict_opts = Arg_absent | Arg_null | Arg_bool bool | Arg_object js_property

fun only_unpositioned :: "strict_opts \<Rightarrow> bool option" where
  "only_unpositioned Arg_absent = Some False"
| "only_unpositioned Arg_null = None"
| "only_unpositioned (Arg_bool b) = Some False"
| "only_unpositioned (Arg_object p) = Some (p = Prop_bool True)"

definition applyStrictLayout ::
  "(jsstring \<Rightarrow> jsstring \<Rightarrow> int) \<Rightarrow> strict_opts \<Rightarrow> layout \<Rightarrow> layout option" where
  "applyStrictLayout lc opts s =
     Option.bind (only_unpositioned opts) (\<lambda>onlyUnpositioned.
       if nodes s = [] then Some s
       else Option.bind (calcTreeDepths lc (nodes s) (edges s))
              (\<lambda>ns. Some (s\<lparr>nodes := map (place_strict onlyUnpositioned) ns\<rparr>)))"

subsection \<open>Active nodes and edges\<close>

text \<open>
  \<open>isHidden\<close> walks the \<open>parentId\<close> chain; on a chain that cycles through nodes that are not
  collapsed the loop of the source does not end, which is the value \<open>None\<close>.
\<close>

partial_function (option) isHidden :: "node list \<Rightarrow> (jsstring \<rightharpoonup> nat) \<Rightarrow> nat \<Rightarrow> bool option" where
  "isHidden ns nodeMap cur =
     (case parentId (ns ! cur) of
        None \<Rightarrow> Some False
      | Some p \<Rightarrow>
          if p = [] then Some False
          else (case nodeMap p of
                  None \<Rightarrow> Some False
                | Some parent \<Rightarrow>
                    if collapsed (ns ! parent) then Some True else isHidden ns nodeMap parent))"

declare isHidden.simps [code]

fun active_loop :: "node list \<Rightarrow> (jsstring \<rightharpoonup> nat) \<Rightarrow> nat list \<Rightarrow> nat list \<Rightarrow> nat list option" where
  "active_loop ns nodeMap [] active = Some active"
| "active_loop ns nodeMap (k # ks) active =
     Option.bind (isHidden ns nodeMap k)
       (\<lambda>h. active_loop ns nodeMap ks (if h then active else active @ [k]))"

definition getActiveNodes :: "node list \<Rightarrow> nat list option" where
  "getActiveNodes ns = active_loop ns (index_map ns) [0..<length ns] []"

definition getActiveEdges :: "node list \<Rightarrow> edge list \<Rightarrow> nat list \<Rightarrow> edge list" where
  "getActiveEdges ns es active =
     (let idSet = set (map (\<lambda>k. nid (ns ! k)) active)
      in filter (\<lambda>e. source e \<in> idSet \<and> target e \<in> idSet) es)"

subsection \<open>Forces\<close>

text \<open>
  \<open>num\<close> reads a coordinate in arithmetic (\<open>null\<close> counts as 0), \<open>or_num a b\<close> is \<open>a || b\<close> on
  numbers, \<open>clamp\<close> is \<open>Utils.clamp\<close>.
\<close>

definition num :: "real option \<Rightarrow> real" where
  "num v = (case v of Some r \<Rightarrow> r | None \<Rightarrow> 0)"

definition or_num :: "real \<Rightarrow> real \<Rightarrow> real" where
  "or_num a b = (if a = 0 then b else a)"

definition clamp :: "real \<Rightarrow> real \<Rightarrow> real \<Rightarrow> real" where
  "clamp v lo hi = max lo (min hi v)"

definition index_pairs :: "nat \<Rightarrow> (nat \<times> nat) list" where
  "index_pairs n = concat (map (\<lambda>i. map (\<lambda>j. (i, j)) [i + 1..<n]) [0..<n])"

definition repel_pair :: "real \<Rightarrow> nat \<Rightarrow> nat \<Rightarrow> node list \<Rightarrow> node list" where
  "repel_pair al a b ns =
     (let dx = or_num (num (x_pos (ns ! b)) - num (x_pos (ns ! a))) 0.001;
          dy = or_num (num (y_pos (ns ! b)) - num (y_pos (ns ! a))) 0.001;
          d2 = dx * dx + dy * dy;
          d = sqrt d2;
          f = (repulsion / d2) * al;
          force_x = f * dx / d;
          force_y = f * dy / d;
          ns1 = ns[a := (ns ! a)\<lparr>vx := vx (ns ! a) - force_x, vy := vy (ns ! a) - force_y\<rparr>]
      in ns1[b := (ns1 ! b)\<lparr>vx := vx (ns1 ! b) + force_x, vy := vy (ns1 ! b) + force_y\<rparr>])"

definition nbody :: "real \<Rightarrow> nat list \<Rightarrow> node list \<Rightarrow> node list" where
  "nbody al active ns =
     fold (\<lambda>(i, j). repel_pair al (active ! i) (active ! j)) (index_pairs (length active)) ns"

definition cell_of :: "node \<Rightarrow> int \<times> int" where
  "cell_of n = (\<lfloor>num (x_pos n) / 150\<rfloor>, \<lfloor>num (y_pos n) / 150\<rfloor>)"

definition build_grid :: "node list \<Rightarrow> nat list \<Rightarrow> (int \<times> int \<Rightarrow> nat list)" where
  "build_grid ns active =
     fold (\<lambda>k grid. grid(cell_of (ns ! k) := grid (cell_of (ns ! k)) @ [k])) active (\<lambda>c. [])"

definition grid_pull :: "real \<Rightarrow> nat \<Rightarrow> nat \<Rightarrow> node list \<Rightarrow> node list" where
  "grid_pull al n m ns =
     (if m = n then ns
      else
        (let ddx = or_num (num (x_pos (ns ! m)) - num (x_pos (ns ! n))) 0.001;
             ddy = or_num (num (y_pos (ns ! m)) - num (y_pos (ns ! n))) 0.001;
             d2 = ddx * ddx + ddy * ddy;
             d = sqrt d2;
             f = (repulsion / d2) * al * 0.5
         in ns[n := (ns ! n)\<lparr>vx := vx (ns ! n) - f * ddx / d, vy := vy (ns ! n) - f * ddy / d\<rparr>]))"

definition cell_offsets :: "(int \<times> int) list" where
  "cell_offsets = concat (map (\<lambda>dx. map (\<lambda>dy. (dx, dy)) [- 1, 0, 1]) [- 1, 0, 1])"

definition gridRepulsion :: "nat list \<Rightarrow> real \<Rightarrow> node list \<Rightarrow> node list" where
  "gridRepulsion active al ns =
     (let grid = build_grid ns active
      in fold (\<lambda>n ns.
                 fold (\<lambda>(dx, dy) ns.
                         fold (grid_pull al n)
                              (grid (fst (cell_of (ns ! n)) + dx, snd (cell_of (ns ! n)) + dy)) ns)
                      cell_offsets ns)
              active ns)"

definition active_map :: "node list \<Rightarrow> nat list \<Rightarrow> (jsstring \<rightharpoonup> nat)" where
  "active_map ns active = map_of (rev (map (\<lambda>k. (nid (ns ! k), k)) active))"

definition spring :: "real \<Rightarrow> (jsstring \<rightharpoonup> nat) \<Rightarrow> edge \<Rightarrow> node list \<Rightarrow> node list" where
  "spring al nodeMap e ns =
     (case nodeMap (source e) of
        None \<Rightarrow> ns
      | Some src \<Rightarrow>
          (case nodeMap (target e) of
             None \<Rightarrow> ns
           | Some tgt \<Rightarrow>
               (let dx = num (x_pos (ns ! tgt)) - num (x_pos (ns ! src));
                    dy = num (y_pos (ns ! tgt)) - num (y_pos (ns ! src));
                    d = or_num (sqrt (dx * dx + dy * dy)) 0.001;
                    displacement = (d - linkDistance) / d * linkStrength * al;
                    force_x = dx * displacement * 0.5;
                    force_y = dy * displacement * 0.5;
                    ns1 = ns[src := (ns ! src)\<lparr>vx := vx (ns ! src) + force_x, vy := vy (ns ! src) + force_y\<rparr>]
                in ns1[tgt := (ns1 ! tgt)\<lparr>vx := vx (ns1 ! tgt) - force_x, vy := vy (ns1 ! tgt) - force_y\<rparr>])))"

definition centering :: "real \<Rightarrow> nat list \<Rightarrow> node list \<Rightarrow> node list" where
  "centering al active ns =
     (let cx = sum_list (map (\<lambda>k. num (x_pos (ns ! k))) active) / real (length active);
          cy = sum_list (map (\<lambda>k. num (y_pos (ns ! k))) active) / real (length active)
      in fold (\<lambda>k ns. ns[k := (ns ! k)\<lparr>vx := vx (ns ! k) - (num (x_pos (ns ! k)) - cx) * centerStrength * al,
                                      vy := vy (ns ! k) - (num (y_pos (ns ! k)) - cy) * centerStrength * al\<rparr>])
              active ns)"

definition snap_pinned :: "nat \<Rightarrow> node list \<Rightarrow> node list" where
  "snap_pinned k ns =
     (if fx (ns ! k) \<noteq> None
      then ns[k := (ns ! k)\<lparr>x_pos := fx (ns ! k), y_pos := fy (ns ! k), vx := 0, vy := 0\<rparr>]
      else ns)"

definition atan2 :: "real \<Rightarrow> real \<Rightarrow> real" where
  "atan2 b a =
     (if a > 0 then arctan (b / a)
      else if a < 0 then (if b \<ge> 0 then arctan (b / a) + pi else arctan (b / a) - pi)
      else if b > 0 then pi / 2
      else if b < 0 then - pi / 2
      else 0)"

definition radial_node :: "real \<Rightarrow> nat \<Rightarrow> node list \<Rightarrow> node list" where
  "radial_node al k ns =
     (let n = ns ! k; px = num (x_pos n); py = num (y_pos n)
      in if depth n = 0
         then ns[k := n\<lparr>vx := vx n + (0 - px) * 0.1 * al, vy := vy n + (0 - py) * 0.1 * al\<rparr>]
         else
           (let targetR = real_of_int (depth n) * 200;
                currentR = or_num (sqrt (px * px + py * py)) 0.1;
                radialForce = (targetR - currentR) * 0.08 * al;
                n1 = n\<lparr>vx := vx n + (px / currentR) * radialForce,
                       vy := vy n + (py / currentR) * radialForce\<rparr>;
                angle = atan2 py px;
                vc = (if vCount n = 0 then 1 else vCount n);
                targetAngle = (real_of_int (vIndex n) / real_of_int (max vc 1)) * pi * 2 - pi;
                angleDiff = targetAngle - angle
            in ns[k := n1\<lparr>vx := vx n1 + cos (angle + pi / 2) * angleDiff * 15 * al,
                           vy := vy n1 + sin (angle + pi / 2) * angleDiff * 15 * al\<rparr>]))"

definition collide_pair :: "nat \<Rightarrow> nat \<Rightarrow> node list \<Rightarrow> node list" where
  "collide_pair a b ns =
     (let minD = or_num (num (radius (ns ! a))) 10 + or_num (num (radius (ns ! b))) 10 + collideBuffer;
          dx = or_num (num (x_pos (ns ! b)) - num (x_pos (ns ! a))) 0.001;
          dy = or_num (num (y_pos (ns ! b)) - num (y_pos (ns ! a))) 0.001;
          d = sqrt (dx * dx + dy * dy)
      in if d < minD
         then
           (let overlap = (minD - d) / d * 0.5;
                ns1 = ns[a := (ns ! a)\<lparr>vx := vx (ns ! a) - dx * overlap, vy := vy (ns ! a) - dy * overlap\<rparr>]
            in ns1[b := (ns1 ! b)\<lparr>vx := vx (ns1 ! b) + dx * overlap, vy := vy (ns1 ! b) + dy * overlap\<rparr>])
         else ns)"

definition integrate_node :: "nat \<Rightarrow> node list \<Rightarrow> node list" where
  "integrate_node k ns =
     (let n = ns ! k
      in if fx n \<noteq> None
         then ns[k := n\<lparr>x_pos := fx n, y_pos := fy n, vx := 0, vy := 0\<rparr>]
         else
           (let vx1 = vx n * 0.7; vy1 = vy n * 0.7
            in ns[k := n\<lparr>vx := vx1, vy := vy1,
                          x_pos := Some (num (x_pos n) + clamp vx1 (- 20) 20),
                          y_pos := Some (num (y_pos n) + clamp vy1 (- 20) 20)\<rparr>]))"

definition applyForces :: "layout \<Rightarrow> layout option" where
  "applyForces s =
     Option.bind (getActiveNodes (nodes s)) (\<lambda>active.
       (let activeEdges = getActiveEdges (nodes s) (edges s) active
        in if active = [] then Some s
           else
             (let al = alpha s;
                  ns1 = (if length active \<le> 600 then nbody al active (nodes s)
                         else gridRepulsion active al (nodes s));
                  ns2 = fold (spring al (active_map ns1 active)) activeEdges ns1;
                  ns3 = (if mode s = Free then centering al active ns2 else ns2)
              in if mode s = Strict then Some (s\<lparr>nodes := fold snap_pinned active ns3\<rparr>)
                 else
                   (let ns4 = (if mode s = Radial then fold (radial_node al) active ns3 else ns3);
                        ns5 = fold (\<lambda>(i, j). collide_pair (active ! i) (active ! j))
                                (index_pairs (length active)) ns4
                    in Some (s\<lparr>nodes := fold integrate_node active ns5\<rparr>)))))"

subsection \<open>The tick loop\<close>

definition notify :: "bool \<Rightarrow> layout \<Rightarrow> layout" where
  "notify final s = (if onTick s then s\<lparr>calls := calls s @ [final]\<rparr> else s)"

definition tick :: "layout \<Rightarrow> layout option" where
  "tick s =
     (if \<not> running s \<or> alpha s < alphaMin then Some (notify True (s\<lparr>running := False\<rparr>))
      else Option.bind (applyForces s)
             (\<lambda>s1. Some ((notify False (s1\<lparr>alpha := alpha s1 * (1 - alphaDecay)\<rparr>))\<lparr>raf := True\<rparr>)))"

definition start :: "layout \<Rightarrow> layout option" where
  "start s = (if running s then Some s else tick (s\<lparr>running := True\<rparr>))"

definition stop :: "layout \<Rightarrow> layout" where
  "stop s = s\<lparr>running := False, raf := False\<rparr>"

definition reheat :: "(jsstring \<Rightarrow> jsstring \<Rightarrow> int) \<Rightarrow> real \<Rightarrow> layout \<Rightarrow> layout option" where
  "reheat lc al s =
     Option.bind (calcTreeDepths lc (nodes s) (edges s))
       (\<lambda>ns. (let s1 = s\<lparr>alpha := al, nodes := ns\<rparr> in if \<not> running s1 then start s1 else Some s1))"

definition setMode :: "(jsstring \<Rightarrow> jsstring \<Rightarrow> int) \<Rightarrow> layout_mode \<Rightarrow> layout \<Rightarrow> layout option" where
  "setMode lc m s =
     Option.bind (calcTreeDepths lc (nodes s) (edges s))
       (\<lambda>ns. reheat lc 0.8 (s\<lparr>mode := m, nodes := ns\<rparr>))"



subsection \<open>Notions used to state the engine's properties\<close>

text \<open>
  \<open>strip_motion\<close> forgets the fields that the forces write (\<open>x\<close>, \<open>y\<close>, \<open>vx\<close>, \<open>vy\<close>).
  \<open>pinned_at a b\<close> says that the pin of a node is \<open>(a, b)\<close>, and \<open>snapped_at a b\<close> that the node
  moreover sits on its pin with zero velocity.
\<close>

definition strip_motion :: "node \<Rightarrow> node" where
  "strip_motion n = n\<lparr>x_pos := None, y_pos := None, vx := 0, vy := 0\<rparr>"


definition pinned_at :: "real \<Rightarrow> real option \<Rightarrow> node \<Rightarrow> bool" where
  "pinned_at a b n = (fx n = Some a \<and> fy n = b)"

definition snapped_at :: "real \<Rightarrow> real option \<Rightarrow> node \<Rightarrow> bool" where
  "snapped_at a b n = (fx n = Some a \<and> fy n = b \<and> x_pos n = Some a \<and> y_pos n = b \<and> vx n = 0 \<and> vy n = 0)"

definition hidden_nodes :: "node list" where
  "hidden_nodes =
     [(mk_node ''p'' ''p'' None)\<lparr>collapsed := True, x_pos := Some 0, y_pos := Some 0\<rparr>,
      (mk_node ''c'' ''c'' (Some ''p''))\<lparr>x_pos := Some 1, y_pos := Some 1, fx := Some 5, fy := Some 5\<rparr>]"

definition hidden_layout :: layout where
  "hidden_layout = \<lparr>nodes = hidden_nodes, edges = [], alpha = 1, running = True, raf = False,
                     mode = Free, onTick = False, calls = []\<rparr>"

definition pinned_layout :: layout where
  "pinned_layout =
     \<lparr>nodes = [(mk_node ''a'' ''a'' None)\<lparr>x_pos := Some 1, y_pos := Some 2, vx := 3, vy := 4,
                                         fx := Some 5, fy := Some 7, depth := 1\<rparr>],
      edges = [], alpha = 1, running = True, raf = False, mode = Radial, onTick = False, calls = []\<rparr>"




text \<open>A concrete comparator for the examples: the order of the code units.\<close>

definition codeunit_order :: "jsstring \<Rightarrow> jsstring \<Rightarrow> int" where
  "codeunit_order a b = (if a = b then 0 else if (a, b) \<in> lexord {(u, v). u < v} then - 1 else 1)"

subsection \<open>Notions used to state the depth calculator's properties\<close>

text \<open>
  \<open>strip_annot\<close> forgets the annotation fields, \<open>unvisited\<close> counts the nodes whose \<open>_visited\<close> flag
  is not set, \<open>valid_map m n\<close> says that the map \<open>m\<close> from ids to array slots stays below \<open>n\<close>, and
  \<open>annot\<close> reads the four annotations of a node.
\<close>

definition strip_annot :: "node \<Rightarrow> node" where
  "strip_annot n = n\<lparr>depth := 0, vIndex := 0, visited := False, vCount := 0, maxDepth := 0\<rparr>"

definition unvisited :: "node list \<Rightarrow> nat" where
  "unvisited ns = length (filter (\<lambda>n. \<not> visited n) ns)"

definition valid_map :: "(jsstring \<rightharpoonup> nat) \<Rightarrow> nat \<Rightarrow> bool" where
  "valid_map m n = (\<forall>i k. m i = Some k \<longrightarrow> k < n)"

definition scen_nodes :: "node list" where
  "scen_nodes = [mk_node ''root'' ''root'' None, mk_node ''A'' ''A'' (Some ''root''),
                 mk_node ''B'' ''B'' (Some ''root''), mk_node ''C'' ''C'' (Some ''A'')]"

definition scen_edges :: "edge list" where
  "scen_edges = [mk_edge ''e1'' ''root'' ''A'', mk_edge ''e2'' ''root'' ''B'', mk_edge ''e3'' ''A'' ''C'']"

definition annot :: "node \<Rightarrow> int \<times> int \<times> int \<times> int" where
  "annot n = (depth n, vIndex n, vCount n, maxDepth n)"

definition settled_layout :: layout where
  "settled_layout =
     \<lparr>nodes = [(mk_node ''root'' ''root'' None)\<lparr>x_pos := Some 0, y_pos := Some 0\<rparr>,
               (mk_node ''A'' ''A'' (Some ''root''))\<lparr>x_pos := Some 310, y_pos := Some (- 42)\<rparr>,
               (mk_node ''B'' ''B'' (Some ''root''))\<lparr>x_pos := Some 300, y_pos := Some 50\<rparr>,
               mk_node ''N'' ''N'' (Some ''A'')],
      edges = [mk_edge ''e1'' ''root'' ''A'', mk_edge ''e2'' ''root'' ''B'', mk_edge ''e3'' ''A'' ''N''],
      alpha = 0, running = False, raf = False, mode = Strict, onTick = False, calls = []\<rparr>"

section \<open>Properties of the store\<close>

lemma length_kept: "length (kept K es) \<le> length es"
  by (induction es arbitrary: K) (auto simp: le_SucI)

lemma dedup_loop_eq:
  "dedup_loop es (K, U, f) = (K \<union> edge_key ` set es, U @ kept K es, f + (length es - length (kept K es)))"
proof (induction es arbitrary: K U f)
  case Nil
  then show ?case by simp
next
  case (Cons e es)
  have l: "length (kept K' es) \<le> length es" for K' by (rule length_kept)
  show ?case
  proof (cases "edge_key e \<in> K")
    case True
    then show ?thesis using Cons l[of K] by (auto simp: Suc_diff_le Let_def)
  next
    case False
    then show ?thesis using Cons by (auto simp: Let_def)
  qed
qed

lemma kept_keys_notin: "e \<in> set (kept K es) \<Longrightarrow> edge_key e \<notin> K"
  by (induction es arbitrary: K) (auto split: if_splits)

lemma kept_subset: "set (kept K es) \<subseteq> set es"
  by (induction es arbitrary: K) (auto split: if_splits)

lemma kept_distinct_keys: "distinct (map edge_key (kept K es))"
proof (induction es arbitrary: K)
  case Nil
  then show ?case by simp
next
  case (Cons e es)
  show ?case
  proof (cases "edge_key e \<in> K")
    case True
    then show ?thesis using Cons by simp
  next
    case False
    have "edge_key e \<notin> edge_key ` set (kept (insert (edge_key e) K) es)"
      using kept_keys_notin by fastforce
    then show ?thesis using False Cons by simp
  qed
qed

lemma kept_first:
  "e \<in> set (kept K es) \<Longrightarrow> find (\<lambda>e'. edge_key e' = edge_key e) es = Some e"
proof (induction es arbitrary: K)
  case Nil
  then show ?case by simp
next
  case (Cons h es)
  have nk: "edge_key e \<notin> K" using Cons.prems by (rule kept_keys_notin)
  show ?case
  proof (cases "edge_key h = edge_key e")
    case True
    then have hk: "edge_key h \<notin> K" using nk by simp
    have "e \<notin> set (kept (insert (edge_key h) K) es)"
      using kept_keys_notin[of e "insert (edge_key h) K" es] True by auto
    then have "e = h" using Cons.prems hk by simp
    then show ?thesis by simp
  next
    case False
    have "e \<noteq> h" using False by auto
    show ?thesis
    proof (cases "edge_key h \<in> K")
      case True
      then have "e \<in> set (kept K es)" using Cons.prems by simp
      then show ?thesis using Cons.IH False by simp
    next
      case F2: False
      then have "e \<in> set (kept (insert (edge_key h) K) es)" using Cons.prems \<open>e \<noteq> h\<close> by simp
      then show ?thesis using Cons.IH False by simp
    qed
  qed
qed

lemma kept_keys: "edge_key ` set (kept K es) = edge_key ` set es - K"
  by (induction es arbitrary: K) (auto split: if_splits)

lemma edge_key_pair: "edge_pair a = edge_pair b \<Longrightarrow> edge_key a = edge_key b"
  by (simp add: edge_pair_def edge_key_def)

lemma filter_first_pair:
  assumes "find (\<lambda>e'. edge_key e' = edge_key e) (filter (\<lambda>e. source e \<in> N \<and> target e \<in> N) es) = Some e"
  shows "find (\<lambda>e'. edge_pair e' = edge_pair e) es = Some e"
  using assms
proof (induction es)
  case Nil
  then show ?case by simp
next
  case (Cons h es)
  have ev: "source e \<in> N \<and> target e \<in> N"
    using Cons.prems by (metis (mono_tags, lifting) find_Some_iff nth_mem mem_Collect_eq set_filter)
  show ?case
  proof (cases "edge_pair h = edge_pair e")
    case True
    then have "source h \<in> N \<and> target h \<in> N" using ev by (simp add: edge_pair_def)
    moreover have "edge_key h = edge_key e" using True by (rule edge_key_pair)
    ultimately show ?thesis using Cons.prems True by simp
  next
    case False
    then have "h \<noteq> e" by auto
    then show ?thesis using Cons False by (auto split: if_splits)
  qed
qed

lemma key_inj:
  assumes "s @ [a] @ t = s' @ [a] @ t'" "a \<notin> set s" "a \<notin> set s'"
  shows "s = s' \<and> t = t'"
proof -
  have "takeWhile (\<lambda>c. c \<noteq> a) (s @ [a] @ t) = s"
    using assms(2) by (induction s) auto
  moreover have "takeWhile (\<lambda>c. c \<noteq> a) (s' @ [a] @ t') = s'"
    using assms(3) by (induction s') auto
  ultimately have "s = s'" using assms(1) by simp
  then show ?thesis using assms(1) by simp
qed

lemma reconnect_loop_Some:
  "reconnect_loop nodeIds (Some r) conn ns (es, f) =
     (es @ map (\<lambda>n. synth_edge (reconnect_source nodeIds r n) (nid n)) (dangling conn (Some r) ns),
      f + length (dangling conn (Some r) ns))"
  by (induction ns arbitrary: es f)
     (auto simp: dangling_def reconnect_source_def or_else_def Let_def split: option.splits)

lemma reconnect_loop_none:
  "dangling conn rootId ns = [] \<Longrightarrow> reconnect_loop nodeIds rootId conn ns (es, f) = (es, f)"
  by (induction ns arbitrary: es f) (auto simp: dangling_def split: if_splits)

lemma find_rootId_None_targeted:
  "find_rootId ns es = None \<Longrightarrow> n \<in> set ns \<Longrightarrow> nid n \<in> set (map target es)"
proof -
  assume a: "find_rootId ns es = None" and n: "n \<in> set ns"
  have "filter (\<lambda>n. nid n \<notin> set (map target es)) ns = []"
    using a by (auto simp: find_rootId_def Let_def split: list.splits)
  then show ?thesis using n by (auto simp: filter_empty_conv)
qed

lemma isolated_None: "chosen_root ns es = None \<Longrightarrow> isolated ns es = []"
  unfolding isolated_def dangling_def chosen_root_def
  using find_rootId_None_targeted[of ns "surviving ns es"]
  by (auto simp: filter_empty_conv connected_ids_def)

lemma length_synthesized: "length (synthesized ns es) = length (isolated ns es)"
  by (cases "chosen_root ns es") (simp_all add: synthesized_def isolated_None)

lemma length_surviving: "length (surviving ns es) \<le> length (valid_edges ns es)"
  by (simp add: surviving_def length_kept)

lemma length_valid: "length (valid_edges ns es) \<le> length es"
  by (simp add: valid_edges_def)

lemma ensure_eq:
  "ensureGraphIntegrity st =
     (length (store_edges st) - length (surviving (store_nodes st) (store_edges st))
        + length (isolated (store_nodes st) (store_edges st)),
      st\<lparr>store_edges := surviving (store_nodes st) (store_edges st) @ synthesized (store_nodes st) (store_edges st),
         store_nodeMap := build_nodeMap (store_nodes st)\<rparr>)"
proof -
  let ?ns = "store_nodes st" and ?es = "store_edges st"
  have le: "length (surviving ?ns ?es) \<le> length (valid_edges ?ns ?es)" "length (valid_edges ?ns ?es) \<le> length ?es"
    by (rule length_surviving, rule length_valid)
  have rec: "reconnect_loop (set (map nid ?ns)) (chosen_root ?ns ?es)
               (connected_ids (chosen_root ?ns ?es) (surviving ?ns ?es)) ?ns (surviving ?ns ?es, f)
             = (surviving ?ns ?es @ synthesized ?ns ?es, f + length (isolated ?ns ?es))" for f
  proof (cases "chosen_root ?ns ?es")
    case None
    then show ?thesis
      using isolated_None[OF None] reconnect_loop_none[of "connected_ids None (surviving ?ns ?es)" None ?ns]
      by (simp add: synthesized_def isolated_def)
  next
    case (Some r)
    then show ?thesis by (simp add: reconnect_loop_Some synthesized_def isolated_def)
  qed
  show ?thesis
    unfolding ensureGraphIntegrity_def Let_def dedup_loop_eq
    using le rec
    by (simp add: valid_edges_def surviving_def chosen_root_def)
qed

lemma loadGraph_eq:
  "loadGraph st (Some ns) (Some es) =
     (length es - length (surviving ns es) + length (isolated ns es),
      \<lparr>store_nodes = ns, store_edges = surviving ns es @ synthesized ns es,
       store_nodeMap = build_nodeMap ns\<rparr>)"
  by (simp add: loadGraph_def ensure_eq)

lemma refreshGraph_eq:
  "refreshGraph st (Some ns) (Some es) = loadGraph st (Some ns) (Some es)"
  by (simp add: loadGraph_def refreshGraph_def)

lemma surviving_valid:
  "e \<in> set (surviving ns es) \<Longrightarrow> source e \<in> set (map nid ns) \<and> target e \<in> set (map nid ns) \<and> e \<in> set es"
  using kept_subset[of "{}" "valid_edges ns es"] by (auto simp: surviving_def valid_edges_def)

lemma distinct_map_fun:
  "distinct (map (\<lambda>a. g (f a)) xs) \<Longrightarrow> distinct (map f xs)"
  by (induction xs) auto

lemma surviving_distinct_pairs: "distinct (map edge_pair (surviving ns es))"
proof -
  have "edge_key = (\<lambda>e. (\<lambda>(s, t). s @ [arrow] @ t) (edge_pair e))"
    by (rule ext) (simp add: edge_key_def edge_pair_def)
  then have "distinct (map (\<lambda>e. (\<lambda>(s, t). s @ [arrow] @ t) (edge_pair e)) (surviving ns es))"
    using kept_distinct_keys[of "{}" "valid_edges ns es"]
    by (simp add: surviving_def)
  then show ?thesis by (rule distinct_map_fun)
qed

lemma isolated_props:
  "n \<in> set (isolated ns es) \<Longrightarrow>
     n \<in> set ns \<and> nid n \<notin> set (map source (surviving ns es)) \<and> nid n \<notin> set (map target (surviving ns es))
     \<and> Some (nid n) \<noteq> chosen_root ns es"
  by (auto simp: isolated_def dangling_def connected_ids_def)

lemma isolated_distinct: "distinct (map nid ns) \<Longrightarrow> distinct (map nid (isolated ns es))"
  by (simp add: isolated_def dangling_def distinct_map_filter)

lemma target_synthesized: "map target (synthesized ns es) = map nid (isolated ns es)"
  by (cases "chosen_root ns es") (simp_all add: synthesized_def isolated_None synth_edge_def)

lemma distinct_map_snd_pairs:
  "distinct (map target xs) \<Longrightarrow> distinct (map edge_pair xs)"
proof -
  assume "distinct (map target xs)"
  then have "distinct (map (\<lambda>e. snd (edge_pair e)) xs)" by (simp add: edge_pair_def)
  then show ?thesis by (rule distinct_map_fun)
qed

lemma output_distinct_pairs:
  assumes "distinct (map nid ns)"
  shows "distinct (map edge_pair (surviving ns es @ synthesized ns es))"
proof -
  have d1: "distinct (map edge_pair (surviving ns es))" by (rule surviving_distinct_pairs)
  have "distinct (map target (synthesized ns es))"
    using assms by (simp add: target_synthesized isolated_distinct)
  then have d2: "distinct (map edge_pair (synthesized ns es))" by (rule distinct_map_snd_pairs)
  have "edge_pair a \<noteq> edge_pair b" if a: "a \<in> set (surviving ns es)" and b: "b \<in> set (synthesized ns es)" for a b
  proof
    assume eq: "edge_pair a = edge_pair b"
    have "target b \<in> set (map target (synthesized ns es))" using b by simp
    then have "target b \<in> set (map nid (isolated ns es))"
      by (simp only: target_synthesized)
    then obtain n where n: "n \<in> set (isolated ns es)" "nid n = target b" by auto
    have "target a = target b" using eq by (simp add: edge_pair_def)
    moreover have "target a \<in> set (map target (surviving ns es))" using a by simp
    ultimately have "nid n \<in> set (map target (surviving ns es))" using n(2) by simp
    then show False using isolated_props[OF n(1)] by simp
  qed
  then have "\<forall>p\<in>set (map edge_pair (surviving ns es)). p \<notin> set (map edge_pair (synthesized ns es))"
    by (metis (no_types, lifting) imageE list.set_map)
  then have "set (map edge_pair (surviving ns es)) \<inter> set (map edge_pair (synthesized ns es)) = {}"
    by blast
  then show ?thesis using d1 d2 by simp
qed

lemma filter_distinct_single:
  "distinct (map f xs) \<Longrightarrow> a \<in> set xs \<Longrightarrow> filter (\<lambda>b. f b = f a) xs = [a]"
proof (induction xs)
  case Nil
  then show ?case by simp
next
  case (Cons h xs)
  show ?case
  proof (cases "a = h")
    case True
    have "f h \<notin> f ` set xs" using Cons.prems(1) by simp
    then have "\<forall>b\<in>set xs. f b \<noteq> f h" by (metis imageI)
    then have "filter (\<lambda>b. f b = f h) xs = []"
      by (simp add: filter_empty_conv)
    then show ?thesis using True by simp
  next
    case False
    then have "a \<in> set xs" using Cons.prems by simp
    then have "f a \<in> f ` set xs" by (rule imageI)
    moreover have "f h \<notin> f ` set xs" using Cons.prems(1) by simp
    ultimately have "f h \<noteq> f a" by metis
    then show ?thesis using Cons \<open>a \<in> set xs\<close> by simp
  qed
qed

lemma find_cong_pair:
  "edge_pair a = edge_pair b \<Longrightarrow> find (\<lambda>e'. edge_pair e' = edge_pair a) es = find (\<lambda>e'. edge_pair e' = edge_pair b) es"
  by simp

lemma surviving_first:
  "e \<in> set (surviving ns es) \<Longrightarrow> find (\<lambda>e'. edge_pair e' = edge_pair e) es = Some e"
  unfolding surviving_def valid_edges_def
  by (rule filter_first_pair, rule kept_first)

lemma key_pair_inj:
  assumes "edge_key a = edge_key b" "arrow \<notin> set (source a)" "arrow \<notin> set (source b)"
  shows "edge_pair a = edge_pair b"
  using key_inj[of "source a" arrow "target a" "source b" "target b"] assms
  by (simp add: edge_key_def edge_pair_def)

lemma surviving_represents:
  assumes af: "\<forall>n\<in>set ns. arrow \<notin> set (nid n)"
    and e: "e \<in> set es" "source e \<in> set (map nid ns)" "target e \<in> set (map nid ns)"
  shows "\<exists>e'\<in>set (surviving ns es). edge_pair e' = edge_pair e"
proof -
  have "e \<in> set (valid_edges ns es)" using e by (simp add: valid_edges_def)
  then have "edge_key e \<in> edge_key ` set (kept {} (valid_edges ns es))"
    by (simp add: kept_keys)
  then obtain e' where e': "e' \<in> set (surviving ns es)" "edge_key e' = edge_key e"
    by (auto simp: surviving_def)
  have "source e' \<in> set (map nid ns)" using surviving_valid[OF e'(1)] by simp
  then have "arrow \<notin> set (source e')" "arrow \<notin> set (source e)" using af e(2) by auto
  then have "edge_pair e' = edge_pair e" using e'(2) by (intro key_pair_inj)
  then show ?thesis using e'(1) by blast
qed

lemma output_first_occurrence:
  assumes d: "distinct (map nid ns)" and af: "\<forall>n\<in>set ns. arrow \<notin> set (nid n)"
    and e: "e \<in> set es" "source e \<in> set (map nid ns)" "target e \<in> set (map nid ns)"
  shows "\<exists>e'. find (\<lambda>a. edge_pair a = edge_pair e) es = Some e'
            \<and> filter (\<lambda>a. edge_pair a = edge_pair e) (surviving ns es @ synthesized ns es) = [e']"
proof -
  obtain e' where e': "e' \<in> set (surviving ns es)" "edge_pair e' = edge_pair e"
    using surviving_represents[OF af e] by blast
  have "find (\<lambda>a. edge_pair a = edge_pair e') es = Some e'" using e'(1) by (rule surviving_first)
  then have f: "find (\<lambda>a. edge_pair a = edge_pair e) es = Some e'" using e'(2) by simp
  have "filter (\<lambda>a. edge_pair a = edge_pair e') (surviving ns es @ synthesized ns es) = [e']"
    using output_distinct_pairs[OF d, of es] e'(1) filter_distinct_single[of edge_pair "surviving ns es @ synthesized ns es" e']
    by simp
  then show ?thesis using f e'(2) by simp
qed

lemma kept_id:
  "distinct (map edge_key xs) \<Longrightarrow> edge_key ` set xs \<inter> K = {} \<Longrightarrow> kept K xs = xs"
proof (induction xs arbitrary: K)
  case Nil
  then show ?case by simp
next
  case (Cons h xs)
  have hk: "edge_key h \<notin> K" using Cons.prems(2) by auto
  have "edge_key ` set xs \<inter> insert (edge_key h) K = {}"
    using Cons.prems by auto
  then have "kept (insert (edge_key h) K) xs = xs" using Cons.IH Cons.prems(1) by simp
  then show ?case using hk by simp
qed

lemma chosen_root_is_node:
  "chosen_root ns es = Some r \<Longrightarrow> r \<in> set (map nid ns)"
proof -
  assume a: "chosen_root ns es = Some r"
  let ?roots = "filter (\<lambda>n. nid n \<notin> set (map target (surviving ns es))) ns"
  show ?thesis
  proof (cases ?roots)
    case Nil
    then have "or_else (case ns of [] \<Rightarrow> None | n # _ \<Rightarrow> Some (nid n)) None = Some r"
      using a by (simp add: chosen_root_def find_rootId_def)
    then show ?thesis by (cases ns) (auto simp: or_else_def split: if_splits)
  next
    case (Cons r0 rest)
    then have "r = nid r0" using a by (simp add: chosen_root_def find_rootId_def)
    moreover have "r0 \<in> set ?roots" using Cons by simp
    ultimately show ?thesis by auto
  qed
qed

lemma synthesized_props:
  assumes "e \<in> set (synthesized ns es)"
  shows "\<exists>r n. chosen_root ns es = Some r \<and> n \<in> set (isolated ns es)
            \<and> e = synth_edge (reconnect_source (set (map nid ns)) r n) (nid n)"
  using assms by (cases "chosen_root ns es") (auto simp: synthesized_def)

lemma reconnect_source_in:
  "r \<in> N \<Longrightarrow> reconnect_source N r n \<in> N"
  by (simp add: reconnect_source_def split: option.splits)

lemma synthesized_valid:
  assumes "e \<in> set (synthesized ns es)"
  shows "source e \<in> set (map nid ns) \<and> target e \<in> set (map nid ns)"
proof -
  obtain r n where rn: "chosen_root ns es = Some r" "n \<in> set (isolated ns es)"
      "e = synth_edge (reconnect_source (set (map nid ns)) r n) (nid n)"
    using synthesized_props[OF assms] by blast
  have "r \<in> set (map nid ns)" using rn(1) by (rule chosen_root_is_node)
  then have "reconnect_source (set (map nid ns)) r n \<in> set (map nid ns)" by (rule reconnect_source_in)
  moreover have "n \<in> set ns" using isolated_props[OF rn(2)] by simp
  ultimately show ?thesis using rn(3) by (simp add: synth_edge_def)
qed

lemma output_valid:
  "valid_edges ns (surviving ns es @ synthesized ns es) = surviving ns es @ synthesized ns es"
proof -
  have "\<forall>e\<in>set (surviving ns es @ synthesized ns es). source e \<in> set (map nid ns) \<and> target e \<in> set (map nid ns)"
    using surviving_valid synthesized_valid by auto
  then show ?thesis unfolding valid_edges_def by (simp only: filter_True)
qed

lemma distinct_keys_of_pairs:
  assumes "distinct (map edge_pair xs)" "\<forall>e\<in>set xs. arrow \<notin> set (source e)"
  shows "distinct (map edge_key xs)"
proof -
  have d: "distinct xs" and i: "inj_on edge_pair (set xs)"
    using assms(1) by (simp_all add: distinct_map)
  have "inj_on edge_key (set xs)"
  proof (rule inj_onI)
    fix a b assume ab: "a \<in> set xs" "b \<in> set xs" "edge_key a = edge_key b"
    then have "edge_pair a = edge_pair b" using assms(2) by (intro key_pair_inj) auto
    then show "a = b" using i ab by (simp add: inj_on_def)
  qed
  then show ?thesis using d by (simp add: distinct_map)
qed

lemma output_surviving:
  assumes d: "distinct (map nid ns)" and af: "\<forall>n\<in>set ns. arrow \<notin> set (nid n)"
  shows "surviving ns (surviving ns es @ synthesized ns es) = surviving ns es @ synthesized ns es"
proof -
  let ?out = "surviving ns es @ synthesized ns es"
  have "\<forall>e\<in>set ?out. source e \<in> set (map nid ns)"
    using surviving_valid synthesized_valid by auto
  moreover have "\<forall>i\<in>set (map nid ns). arrow \<notin> set i" using af by simp
  ultimately have "\<forall>e\<in>set ?out. arrow \<notin> set (source e)" by blast
  then have "distinct (map edge_key ?out)"
    using output_distinct_pairs[OF d, of es] by (intro distinct_keys_of_pairs)
  then have "kept {} ?out = ?out" by (rule kept_id) simp
  then show ?thesis unfolding surviving_def[of ns ?out] output_valid by simp
qed

lemma find_rootId_append:
  assumes "\<forall>e\<in>set ys. Some (target e) \<noteq> find_rootId ns xs"
    and "ys \<noteq> [] \<longrightarrow> filter (\<lambda>n. nid n \<notin> set (map target xs)) ns \<noteq> []"
  shows "find_rootId ns (xs @ ys) = find_rootId ns xs"
proof (cases "ys = []")
  case True
  then show ?thesis by simp
next
  case False
  then obtain r0 rest where rr: "filter (\<lambda>n. nid n \<notin> set (map target xs)) ns = r0 # rest"
    using assms(2) by (cases "filter (\<lambda>n. nid n \<notin> set (map target xs)) ns") auto
  then have fr: "find_rootId ns xs = Some (nid r0)" by (simp add: find_rootId_def)
  have split: "filter (\<lambda>n. nid n \<notin> set (map target (xs @ ys))) ns
        = filter (\<lambda>n. nid n \<notin> set (map target ys)) (filter (\<lambda>n. nid n \<notin> set (map target xs)) ns)"
    by (auto simp: filter_filter intro: filter_cong)
  have "nid r0 \<notin> set (map target ys)" using assms(1) fr by auto
  then have "filter (\<lambda>n. nid n \<notin> set (map target (xs @ ys))) ns
        = r0 # filter (\<lambda>n. nid n \<notin> set (map target ys)) rest"
    using rr split by simp
  then show ?thesis using fr by (simp add: find_rootId_def)
qed

lemma isolated_nonempty_roots:
  assumes "isolated ns es \<noteq> []"
  shows "filter (\<lambda>n. nid n \<notin> set (map target (surviving ns es))) ns \<noteq> []"
proof -
  obtain n where n: "n \<in> set (isolated ns es)" using assms by (cases "isolated ns es") auto
  then have "n \<in> set ns" "nid n \<notin> set (map target (surviving ns es))"
    using isolated_props[OF n] by auto
  then show ?thesis by (auto simp: filter_empty_conv)
qed

lemma output_chosen_root:
  assumes d: "distinct (map nid ns)" and af: "\<forall>n\<in>set ns. arrow \<notin> set (nid n)"
  shows "chosen_root ns (surviving ns es @ synthesized ns es) = chosen_root ns es"
proof -
  have a1: "\<forall>e\<in>set (synthesized ns es). Some (target e) \<noteq> find_rootId ns (surviving ns es)"
  proof
    fix e assume "e \<in> set (synthesized ns es)"
    then have "target e \<in> set (map target (synthesized ns es))" by simp
    then have "target e \<in> set (map nid (isolated ns es))" by (simp only: target_synthesized)
    then obtain n where n: "n \<in> set (isolated ns es)" "nid n = target e" by auto
    show "Some (target e) \<noteq> find_rootId ns (surviving ns es)"
      using isolated_props[OF n(1)] n(2) by (simp add: chosen_root_def)
  qed
  have a2: "synthesized ns es \<noteq> [] \<longrightarrow> filter (\<lambda>n. nid n \<notin> set (map target (surviving ns es))) ns \<noteq> []"
  proof
    assume "synthesized ns es \<noteq> []"
    then have "isolated ns es \<noteq> []" using length_synthesized[of ns es] by auto
    then show "filter (\<lambda>n. nid n \<notin> set (map target (surviving ns es))) ns \<noteq> []"
      by (rule isolated_nonempty_roots)
  qed
  show ?thesis
    unfolding chosen_root_def output_surviving[OF d af]
    using a1 a2 by (rule find_rootId_append)
qed

lemma output_isolated:
  assumes d: "distinct (map nid ns)" and af: "\<forall>n\<in>set ns. arrow \<notin> set (nid n)"
  shows "isolated ns (surviving ns es @ synthesized ns es) = []"
proof -
  let ?out = "surviving ns es @ synthesized ns es"
  have "nid n \<in> connected_ids (chosen_root ns es) ?out \<or> Some (nid n) = chosen_root ns es"
    if n: "n \<in> set ns" for n
  proof (cases "n \<in> set (isolated ns es)")
    case True
    then have "nid n \<in> set (map nid (isolated ns es))" by simp
    then have "nid n \<in> set (map target (synthesized ns es))" by (simp only: target_synthesized)
    then show ?thesis by (auto simp: connected_ids_def)
  next
    case False
    then have "nid n \<in> connected_ids (chosen_root ns es) (surviving ns es) \<or> Some (nid n) = chosen_root ns es"
      using n by (auto simp: isolated_def dangling_def)
    then show ?thesis by (auto simp: connected_ids_def)
  qed
  then show ?thesis
    unfolding isolated_def[of ns ?out] output_chosen_root[OF d af] output_surviving[OF d af] dangling_def
    by (auto simp: filter_empty_conv)
qed

lemma second_pass:
  assumes d: "distinct (map nid ns)" and af: "\<forall>n\<in>set ns. arrow \<notin> set (nid n)"
  shows "loadGraph st' (Some ns) (Some (surviving ns es @ synthesized ns es))
           = (0, \<lparr>store_nodes = ns, store_edges = surviving ns es @ synthesized ns es,
                  store_nodeMap = build_nodeMap ns\<rparr>)"
proof -
  let ?out = "surviving ns es @ synthesized ns es"
  have "synthesized ns ?out = []"
    using length_synthesized[of ns ?out] output_isolated[OF d af, of es] by simp
  then show ?thesis
    by (simp add: loadGraph_eq output_surviving[OF d af] output_isolated[OF d af])
qed

lemmas eval_defs = loadGraph_def refreshGraph_def ensureGraphIntegrity_def find_rootId_def connected_ids_def
      synth_edge_def edge_pair_def edge_key_def arrow_def str_def or_else_def Let_def new_store_def mk_node_def mk_edge_def
      build_nodeMap_def

text \<open>
  C3 (as amended). When the node ids are pairwise distinct, the edge list left by \<open>loadGraph\<close> or
  \<open>refreshGraph\<close> holds at most one edge for every ordered (source, target) pair. When moreover
  no node id contains the separator U+2192 of the deduplication key, every input edge whose two
  endpoints are node ids is represented in the result by exactly one edge with its pair, and that
  edge is the first occurrence of the pair in the input order.
\<close>

theorem C3_no_duplicate_edges:
  assumes "distinct (map nid ns)"
    and "r = loadGraph st (Some ns) (Some es) \<or> r = refreshGraph st (Some ns) (Some es)"
  shows "distinct (map edge_pair (store_edges (snd r))) \<and>
         ((\<forall>n\<in>set ns. arrow \<notin> set (nid n)) \<longrightarrow>
          (\<forall>e\<in>set es. source e \<in> set (map nid ns) \<and> target e \<in> set (map nid ns) \<longrightarrow>
             (\<exists>e'. find (\<lambda>a. edge_pair a = edge_pair e) es = Some e' \<and>
                   filter (\<lambda>a. edge_pair a = edge_pair e) (store_edges (snd r)) = [e'])))"
proof -
  have r: "store_edges (snd r) = surviving ns es @ synthesized ns es"
    using assms(2) by (auto simp: refreshGraph_eq loadGraph_eq)
  have "distinct (map edge_pair (store_edges (snd r)))"
    unfolding r using assms(1) by (rule output_distinct_pairs)
  moreover have "\<exists>e'. find (\<lambda>a. edge_pair a = edge_pair e) es = Some e' \<and>
                   filter (\<lambda>a. edge_pair a = edge_pair e) (store_edges (snd r)) = [e']"
    if "\<forall>n\<in>set ns. arrow \<notin> set (nid n)" "e \<in> set es"
       "source e \<in> set (map nid ns)" "target e \<in> set (map nid ns)" for e
    unfolding r using assms(1) that by (rule output_first_occurrence)
  ultimately show ?thesis by blast
qed

text \<open>C3 at a two-node graph that is given the edge root to A twice: the first one is kept.\<close>

theorem C3_witness:
  "store_edges (snd (loadGraph new_store (Some two_nodes) (Some dup_edges))) = [mk_edge ''e1'' ''root'' ''A'']
   \<and> distinct (map edge_pair (store_edges (snd (loadGraph new_store (Some two_nodes) (Some dup_edges)))))
   \<and> filter (\<lambda>a. edge_pair a = (str ''root'', str ''A''))
        (store_edges (snd (loadGraph new_store (Some two_nodes) (Some dup_edges)))) = [mk_edge ''e1'' ''root'' ''A'']"
proof -
  have d: "distinct (map nid two_nodes)" by (simp add: two_nodes_def mk_node_def str_def)
  have e: "store_edges (snd (loadGraph new_store (Some two_nodes) (Some dup_edges))) = [mk_edge ''e1'' ''root'' ''A'']"
    by (simp add: two_nodes_def dup_edges_def eval_defs)
  from C3_no_duplicate_edges[OF d, of "loadGraph new_store (Some two_nodes) (Some dup_edges)" new_store dup_edges]
  have "distinct (map edge_pair (store_edges (snd (loadGraph new_store (Some two_nodes) (Some dup_edges)))))"
    by simp
  then show ?thesis using e by (simp add: edge_pair_def mk_edge_def)
qed

text \<open>
  C3 as stated fails when two node objects share an id: both are dangling, the set \<open>connected\<close>
  is not extended inside the loop of step 4, and the same edge is pushed twice.
\<close>

theorem C3_counterexample:
  "\<not> distinct (map edge_pair (store_edges (snd (loadGraph new_store (Some dup_id_nodes) (Some [])))))"
  by (simp add: dup_id_nodes_def eval_defs)

text \<open>
  C10 (as amended). When the node ids are pairwise distinct and none contains the key separator
  U+2192, running \<open>refreshGraph\<close> on the arrays left by a previous \<open>loadGraph\<close> or
  \<open>refreshGraph\<close> (passed again, or kept by passing no arrays) returns the fixed count 0 and
  leaves the whole store, its edge list included, unchanged.
\<close>

theorem C10_repair_idempotent:
  assumes "distinct (map nid ns)" and "\<forall>n\<in>set ns. arrow \<notin> set (nid n)"
    and "r = loadGraph st (Some ns) (Some es) \<or> r = refreshGraph st (Some ns) (Some es)"
  shows "refreshGraph (snd r) (Some (store_nodes (snd r))) (Some (store_edges (snd r))) = (0, snd r)
       \<and> refreshGraph (snd r) None None = (0, snd r)"
proof -
  have r: "snd r = \<lparr>store_nodes = ns, store_edges = surviving ns es @ synthesized ns es,
                   store_nodeMap = build_nodeMap ns\<rparr>"
    using assms(3) by (auto simp: refreshGraph_eq loadGraph_eq)
  have n: "refreshGraph (snd r) None None = refreshGraph (snd r) (Some (store_nodes (snd r))) (Some (store_edges (snd r)))"
    by (simp add: refreshGraph_def)
  have "refreshGraph (snd r) (Some (store_nodes (snd r))) (Some (store_edges (snd r))) = (0, snd r)"
    unfolding r refreshGraph_eq using second_pass[OF assms(1,2)] by simp
  then show ?thesis using n by simp
qed

text \<open>C10 at the two-node graph with a duplicated edge: the first pass fixes 1, the second 0.\<close>

theorem C10_witness:
  "fst (loadGraph new_store (Some two_nodes) (Some dup_edges)) = 1
   \<and> fst (refreshGraph (snd (loadGraph new_store (Some two_nodes) (Some dup_edges))) None None) = 0
   \<and> store_edges (snd (refreshGraph (snd (loadGraph new_store (Some two_nodes) (Some dup_edges))) None None))
       = [mk_edge ''e1'' ''root'' ''A'']"
proof -
  have d: "distinct (map nid two_nodes)" by (simp add: two_nodes_def mk_node_def str_def)
  have a: "\<forall>n\<in>set two_nodes. arrow \<notin> set (nid n)" by (simp add: two_nodes_def mk_node_def str_def arrow_def)
  have e: "loadGraph new_store (Some two_nodes) (Some dup_edges)
         = (1, \<lparr>store_nodes = two_nodes, store_edges = [mk_edge ''e1'' ''root'' ''A''], store_nodeMap = build_nodeMap two_nodes\<rparr>)"
    by (simp add: two_nodes_def dup_edges_def loadGraph_def refreshGraph_def ensureGraphIntegrity_def find_rootId_def connected_ids_def
      synth_edge_def edge_pair_def edge_key_def arrow_def str_def or_else_def Let_def new_store_def mk_node_def mk_edge_def)
  from C10_repair_idempotent[OF d a, of "loadGraph new_store (Some two_nodes) (Some dup_edges)" new_store dup_edges]
  have "refreshGraph (snd (loadGraph new_store (Some two_nodes) (Some dup_edges))) None None
         = (0, snd (loadGraph new_store (Some two_nodes) (Some dup_edges)))"
    by simp
  then show ?thesis using e by simp
qed

text \<open>
  C10 as stated fails for two node objects with the same id: the first pass pushes the same
  edge twice, and the second pass removes one of them and reports it.
\<close>

theorem C10_counterexample:
  "fst (refreshGraph (snd (loadGraph new_store (Some dup_id_nodes) (Some []))) None None) = 1"
  by (simp add: dup_id_nodes_def eval_defs)

text \<open>
  The second hypothesis of C10 is needed as well: with pairwise distinct ids that contain U+2192,
  a pushed edge can have the key of a surviving edge; the second pass drops it and pushes it again.
\<close>

lemma key_collision_example:
  "distinct (map nid arrow_nodes)
   \<and> fst (loadGraph new_store (Some arrow_nodes) (Some arrow_edges)) = 1
   \<and> fst (refreshGraph (snd (loadGraph new_store (Some arrow_nodes) (Some arrow_edges))) None None) = 2"
  by (simp add: arrow_nodes_def arrow_edges_def eval_defs)

lemma isolated_iff:
  "n \<in> set (isolated ns es) \<longleftrightarrow>
     n \<in> set ns \<and> nid n \<notin> endpoints (surviving ns es) \<and> Some (nid n) \<noteq> chosen_root ns es"
  by (cases "chosen_root ns es") (auto simp: isolated_def dangling_def connected_ids_def endpoints_def)

lemma isolated_root_Some:
  assumes "n \<in> set (isolated ns es)"
  shows "\<exists>r. chosen_root ns es = Some r"
  using assms isolated_None[of ns es] by (cases "chosen_root ns es") auto

lemma filter_target_surviving:
  assumes "i \<notin> endpoints (surviving ns es)"
  shows "filter (\<lambda>e. target e = i) (surviving ns es) = []"
  using assms by (auto simp: filter_empty_conv endpoints_def)

lemma filter_map_distinct_single:
  assumes hg: "\<And>b. h (g b) = f b" and "distinct (map f xs)" "a \<in> set xs"
  shows "filter (\<lambda>e. h e = f a) (map g xs) = [g a]"
  using assms(2,3)
proof (induction xs)
  case Nil
  then show ?case by simp
next
  case (Cons c xs)
  show ?case
  proof (cases "a = c")
    case True
    have "f c \<notin> f ` set xs" using Cons.prems(1) by simp
    then have "\<forall>b\<in>set xs. f b \<noteq> f c" by (metis imageI)
    then have "filter (\<lambda>e. h e = f c) (map g xs) = []"
      by (simp add: filter_empty_conv hg)
    then show ?thesis using True by (simp add: hg)
  next
    case False
    then have ax: "a \<in> set xs" using Cons.prems by simp
    then have "f a \<in> f ` set xs" by (rule imageI)
    moreover have "f c \<notin> f ` set xs" using Cons.prems(1) by simp
    ultimately have "f c \<noteq> f a" by metis
    then show ?thesis using Cons ax by (simp add: hg)
  qed
qed

lemma filter_target_synthesized:
  assumes d: "distinct (map nid ns)" and n: "n \<in> set (isolated ns es)" and r: "chosen_root ns es = Some r"
  shows "filter (\<lambda>e. target e = nid n) (synthesized ns es)
           = [synth_edge (reconnect_source (set (map nid ns)) r n) (nid n)]"
proof -
  have "distinct (map nid (isolated ns es))" using d by (rule isolated_distinct)
  then show ?thesis
    unfolding synthesized_def r option.case
    using n by (intro filter_map_distinct_single[where h = target and f = nid]) (simp_all add: synth_edge_def)
qed

lemma reconnect_edge:
  assumes d: "distinct (map nid ns)"
    and n: "n \<in> set ns" "nid n \<notin> endpoints (surviving ns es)" "Some (nid n) \<noteq> chosen_root ns es"
  shows "\<exists>r. chosen_root ns es = Some r \<and>
             filter (\<lambda>e. target e = nid n) (surviving ns es @ synthesized ns es)
               = [synth_edge (reconnect_source (set (map nid ns)) r n) (nid n)]"
proof -
  have iso: "n \<in> set (isolated ns es)" using n by (simp add: isolated_iff)
  then obtain r where r: "chosen_root ns es = Some r" using isolated_root_Some by blast
  show ?thesis
    using r filter_target_surviving[OF n(2)] filter_target_synthesized[OF d iso r] by simp
qed

lemma fixed_eq:
  assumes "r = loadGraph st (Some ns) (Some es) \<or> r = refreshGraph st (Some ns) (Some es)"
  shows "fst r = length es - length (surviving ns es) + length (isolated ns es)"
    and "store_edges (snd r) = surviving ns es @ synthesized ns es"
  using assms by (auto simp: refreshGraph_eq loadGraph_eq)

text \<open>
  C2 (as amended). With pairwise distinct node ids, every node that is neither the chosen root
  nor an endpoint of a surviving edge is the target of exactly one edge of the result, the
  synthesized one, whose source is \<open>parentId\<close> when that is a non-empty id of the node set and
  the chosen root otherwise. In particular a node D with \<open>parentId = "root"\<close>, where "root" is a
  node id, D is not the chosen root and D is neither source nor target of a surviving edge,
  gets the edge from root to D, and the returned fixed count is at least 1.
\<close>

theorem C2_reconnect_dangling:
  assumes "distinct (map nid ns)"
    and "r = loadGraph st (Some ns) (Some es) \<or> r = refreshGraph st (Some ns) (Some es)"
  shows "(\<forall>n\<in>set ns. nid n \<notin> endpoints (surviving ns es) \<and> Some (nid n) \<noteq> chosen_root ns es \<longrightarrow>
           (\<exists>root. chosen_root ns es = Some root \<and>
              filter (\<lambda>e. target e = nid n) (store_edges (snd r)) =
                [synth_edge (case parentId n of None \<Rightarrow> root
                             | Some p \<Rightarrow> if p \<noteq> [] \<and> p \<in> set (map nid ns) then p else root) (nid n)]))
       \<and> (\<forall>d\<in>set ns. parentId d = Some (str ''root'') \<and> str ''root'' \<in> set (map nid ns)
              \<and> nid d \<notin> endpoints (surviving ns es) \<and> Some (nid d) \<noteq> chosen_root ns es \<longrightarrow>
            synth_edge (str ''root'') (nid d) \<in> set (store_edges (snd r)) \<and> 1 \<le> fst r)"
proof -
  note out = fixed_eq[OF assms(2)]
  have A: "\<exists>root. chosen_root ns es = Some root \<and>
              filter (\<lambda>e. target e = nid n) (store_edges (snd r)) =
                [synth_edge (case parentId n of None \<Rightarrow> root
                             | Some p \<Rightarrow> if p \<noteq> [] \<and> p \<in> set (map nid ns) then p else root) (nid n)]"
    if "n \<in> set ns" "nid n \<notin> endpoints (surviving ns es)" "Some (nid n) \<noteq> chosen_root ns es" for n
    using reconnect_edge[OF assms(1) that] unfolding out reconnect_source_def by blast
  have B: "synth_edge (str ''root'') (nid d) \<in> set (store_edges (snd r)) \<and> 1 \<le> fst r"
    if d: "d \<in> set ns" "parentId d = Some (str ''root'')" "str ''root'' \<in> set (map nid ns)"
      "nid d \<notin> endpoints (surviving ns es)" "Some (nid d) \<noteq> chosen_root ns es" for d
  proof -
    have ne: "str ''root'' \<noteq> []" by (simp add: str_def)
    obtain root where "filter (\<lambda>e. target e = nid d) (store_edges (snd r)) = [synth_edge (str ''root'') (nid d)]"
      using A[OF d(1,4,5)] d(2,3) ne by auto
    then have "synth_edge (str ''root'') (nid d) \<in> set (filter (\<lambda>e. target e = nid d) (store_edges (snd r)))"
      by simp
    then have e: "synth_edge (str ''root'') (nid d) \<in> set (store_edges (snd r))" by simp
    have "d \<in> set (isolated ns es)" using d by (simp add: isolated_iff)
    then have "isolated ns es \<noteq> []" by auto
    then have "1 \<le> length (isolated ns es)" by (cases "isolated ns es") auto
    then show ?thesis using e by (simp add: out)
  qed
  show ?thesis using A B by blast
qed

lemma three_nodes_eval:
  "loadGraph new_store (Some three_nodes) (Some one_edge) =
     (1, \<lparr>store_nodes = three_nodes,
          store_edges = [mk_edge ''e1'' ''root'' ''A'', synth_edge (str ''root'') (str ''D'')],
          store_nodeMap = build_nodeMap three_nodes\<rparr>)"
  by (simp add: three_nodes_def one_edge_def loadGraph_def refreshGraph_def ensureGraphIntegrity_def find_rootId_def connected_ids_def
      synth_edge_def edge_pair_def edge_key_def arrow_def str_def or_else_def Let_def new_store_def mk_node_def mk_edge_def)

lemma three_nodes_facts:
  "distinct (map nid three_nodes)"
  "surviving three_nodes one_edge = [mk_edge ''e1'' ''root'' ''A'']"
  "chosen_root three_nodes one_edge = Some (str ''root'')"
  by (simp_all add: three_nodes_def one_edge_def surviving_def valid_edges_def chosen_root_def find_rootId_def
        mk_node_def mk_edge_def str_def edge_key_def arrow_def)

text \<open>C2 at the graph root, A, D with the single edge root to A.\<close>

theorem C2_witness:
  "synth_edge (str ''root'') (str ''D'') \<in> set (store_edges (snd (loadGraph new_store (Some three_nodes) (Some one_edge))))
   \<and> 1 \<le> fst (loadGraph new_store (Some three_nodes) (Some one_edge))
   \<and> filter (\<lambda>e. target e = str ''D'') (store_edges (snd (loadGraph new_store (Some three_nodes) (Some one_edge))))
        = [synth_edge (str ''root'') (str ''D'')]"
proof -
  let ?d = "mk_node ''D'' ''D'' (Some ''root'')"
  have d: "?d \<in> set three_nodes" by (simp add: three_nodes_def)
  have h: "parentId ?d = Some (str ''root'') \<and> str ''root'' \<in> set (map nid three_nodes)
              \<and> nid ?d \<notin> endpoints (surviving three_nodes one_edge) \<and> Some (nid ?d) \<noteq> chosen_root three_nodes one_edge"
    by (simp add: three_nodes_facts endpoints_def) (simp add: three_nodes_def mk_node_def mk_edge_def str_def)
  from C2_reconnect_dangling[OF three_nodes_facts(1), of "loadGraph new_store (Some three_nodes) (Some one_edge)" new_store one_edge]
  have "synth_edge (str ''root'') (nid ?d) \<in> set (store_edges (snd (loadGraph new_store (Some three_nodes) (Some one_edge))))
        \<and> 1 \<le> fst (loadGraph new_store (Some three_nodes) (Some one_edge))"
    using d h by blast
  then show ?thesis by (simp add: three_nodes_eval) (simp add: mk_node_def mk_edge_def synth_edge_def str_def)
qed

text \<open>
  C2 as stated fails for a node D with \<open>parentId = "root"\<close> and no edge to it that has an
  outgoing edge of its own: D counts as connected, nothing is pushed and nothing is counted.
\<close>

theorem C2_counterexample:
  "parentId (detached_nodes ! 1) = Some (str ''root'')
   \<and> nid (detached_nodes ! 1) = str ''D''
   \<and> str ''D'' \<notin> set (map target detached_edges)
   \<and> store_edges (snd (loadGraph new_store (Some detached_nodes) (Some detached_edges))) = detached_edges
   \<and> fst (loadGraph new_store (Some detached_nodes) (Some detached_edges)) = 0"
  by (simp add: detached_nodes_def detached_edges_def eval_defs)

lemma edge_rel_append: "edge_rel xs \<subseteq> edge_rel (xs @ ys)" "edge_rel ys \<subseteq> edge_rel (xs @ ys)"
  by (auto simp: edge_rel_def)

lemma edge_rel_target: "(a, b) \<in> edge_rel es \<Longrightarrow> b \<in> set (map target es)"
  by (auto simp: edge_rel_def edge_pair_def)

lemma reach_target:
  assumes "(a, b) \<in> (edge_rel es)\<^sup>*" "a \<noteq> b"
  shows "b \<in> set (map target es)"
  using assms by (induction rule: rtrancl_induct) (auto dest: edge_rel_target)

lemma roots_chosen:
  assumes "\<exists>n\<in>set ns. nid n \<notin> set (map target (surviving ns es))"
  shows "\<exists>r. chosen_root ns es = Some r \<and> r \<notin> set (map target (surviving ns es))"
proof -
  let ?roots = "filter (\<lambda>n. nid n \<notin> set (map target (surviving ns es))) ns"
  have "?roots \<noteq> []" using assms by (auto simp: filter_empty_conv)
  then obtain r0 rest where rr: "?roots = r0 # rest" by (cases ?roots) auto
  then have "r0 \<in> set ?roots" by simp
  then have "nid r0 \<notin> set (map target (surviving ns es))" by simp
  moreover have "chosen_root ns es = Some (nid r0)" using rr by (simp add: chosen_root_def find_rootId_def)
  ultimately show ?thesis by blast
qed

lemma unique_by_id:
  assumes "distinct (map nid ns)" "r \<in> set (map nid ns)"
  shows "\<exists>!n. n \<in> set ns \<and> nid n = r"
proof -
  obtain n where n: "n \<in> set ns" "nid n = r" using assms(2) by auto
  have "m = n" if "m \<in> set ns" "nid m = r" for m
    using assms(1) that n by (metis distinct_map inj_onD)
  then show ?thesis using n by blast
qed

lemma every_node_touched:
  assumes "n \<in> set ns" "Some (nid n) \<noteq> chosen_root ns es"
  shows "nid n \<in> endpoints (surviving ns es @ synthesized ns es)"
proof (cases "n \<in> set (isolated ns es)")
  case True
  then have "nid n \<in> set (map nid (isolated ns es))" by simp
  then have "nid n \<in> set (map target (synthesized ns es))" by (simp only: target_synthesized)
  then show ?thesis by (auto simp: endpoints_def)
next
  case False
  then have "nid n \<in> endpoints (surviving ns es)" using assms by (simp add: isolated_iff)
  then show ?thesis by (auto simp: endpoints_def)
qed

lemma edge_rel_Un: "edge_rel (xs @ ys) = edge_rel xs \<union> edge_rel ys"
  by (simp add: edge_rel_def)

lemma edge_rel_source: "(a, b) \<in> edge_rel es \<Longrightarrow> a \<in> set (map source es)"
  by (auto simp: edge_rel_def edge_pair_def)

lemma path_avoiding:
  assumes "(a, b) \<in> (S \<union> Y)\<^sup>*" and "b \<notin> T"
    and "\<forall>y z. (y, z) \<in> Y \<longrightarrow> z \<in> T" and "\<forall>y z. (y, z) \<in> S \<longrightarrow> y \<notin> T"
  shows "(a, b) \<in> S\<^sup>*"
proof -
  have "b \<notin> T \<longrightarrow> (a, b) \<in> S\<^sup>*" using assms(1)
  proof (induction rule: rtrancl_induct)
    case base
    then show ?case by simp
  next
    case (step y z)
    show ?case
    proof
      assume z: "z \<notin> T"
      have yz: "(y, z) \<in> S" using step.hyps(2) z assms(3) by blast
      then have "y \<notin> T" using assms(4) by blast
      then have "(a, y) \<in> S\<^sup>*" using step.IH by blast
      then show "(a, z) \<in> S\<^sup>*" using yz by (rule rtrancl_into_rtrancl)
    qed
  qed
  then show ?thesis using assms(2) by blast
qed

lemma path_tail:
  assumes "(a, b) \<in> (S \<union> Y)\<^sup>*"
  shows "\<exists>p. (p = a \<or> p \<in> Range S) \<and> (p, b) \<in> Y\<^sup>*"
  using assms
proof (induction rule: rtrancl_induct)
  case base
  then show ?case by blast
next
  case (step y z)
  show ?case
  proof (cases "(y, z) \<in> S")
    case True
    then have "z \<in> Range S" by blast
    then show ?thesis by blast
  next
    case False
    then have yz: "(y, z) \<in> Y" using step.hyps(2) by blast
    obtain p where p: "p = a \<or> p \<in> Range S" "(p, y) \<in> Y\<^sup>*" using step.IH by blast
    have "(p, z) \<in> Y\<^sup>*" using p(2) yz by (rule rtrancl_into_rtrancl)
    then show ?thesis using p(1) by blast
  qed
qed

lemma root_not_pushed:
  assumes "chosen_root ns es = Some r"
  shows "r \<notin> set (map target (synthesized ns es))"
proof
  assume "r \<in> set (map target (synthesized ns es))"
  then have "r \<in> set (map nid (isolated ns es))" by (simp only: target_synthesized)
  then obtain n where "n \<in> set (isolated ns es)" "nid n = r" by auto
  then show False using assms by (simp add: isolated_iff)
qed

lemma pushed_not_endpoint:
  assumes "(y, z) \<in> edge_rel (synthesized ns es)"
  shows "z \<notin> endpoints (surviving ns es)"
proof -
  have "z \<in> set (map target (synthesized ns es))" using assms by (rule edge_rel_target)
  then have "z \<in> set (map nid (isolated ns es))" by (simp only: target_synthesized)
  then obtain n where "n \<in> set (isolated ns es)" "nid n = z" by auto
  then show ?thesis by (simp add: isolated_iff)
qed

lemma rooted_sufficient:
  assumes d: "distinct (map nid ns)"
    and h1: "\<exists>n\<in>set ns. nid n \<notin> set (map target (surviving ns es))"
    and h2: "\<forall>r i. chosen_root ns es = Some r \<and> i \<in> endpoints (surviving ns es) \<longrightarrow> (r, i) \<in> (edge_rel (surviving ns es))\<^sup>*"
    and h3: "\<forall>r n. chosen_root ns es = Some r \<and> n \<in> set ns \<and> nid n \<notin> endpoints (surviving ns es)
               \<longrightarrow> (\<exists>p. (p = r \<or> p \<in> endpoints (surviving ns es)) \<and> (p, nid n) \<in> (edge_rel (synthesized ns es))\<^sup>*)"
  shows "(\<exists>!n. n \<in> set ns \<and> no_incoming (surviving ns es @ synthesized ns es) n)
       \<and> (\<forall>n m. n \<in> set ns \<and> no_incoming (surviving ns es @ synthesized ns es) n \<and> m \<in> set ns
              \<longrightarrow> (nid n, nid m) \<in> (edge_rel (surviving ns es @ synthesized ns es))\<^sup>*)"
proof -
  let ?S = "surviving ns es" and ?Y = "synthesized ns es"
  let ?out = "?S @ ?Y"
  obtain r where r: "chosen_root ns es = Some r" "r \<notin> set (map target ?S)"
    using roots_chosen[OF h1] by blast
  have rN: "r \<in> set (map nid ns)" using r(1) by (rule chosen_root_is_node)
  have monoS: "(edge_rel ?S)\<^sup>* \<subseteq> (edge_rel ?out)\<^sup>*"
    by (rule rtrancl_mono) (rule edge_rel_append)
  have monoY: "(edge_rel ?Y)\<^sup>* \<subseteq> (edge_rel ?out)\<^sup>*"
    by (rule rtrancl_mono) (rule edge_rel_append)
  have rY: "r \<notin> set (map target ?Y)" using r(1) by (rule root_not_pushed)
  have fromroot: "(r, p) \<in> (edge_rel ?out)\<^sup>*" if "p = r \<or> p \<in> endpoints ?S" for p
  proof (cases "p = r")
    case True
    then show ?thesis by simp
  next
    case False
    then have "p \<in> endpoints ?S" using that by blast
    then have "(r, p) \<in> (edge_rel ?S)\<^sup>*" using h2 r(1) by blast
    then show ?thesis using monoS by blast
  qed
  have reach: "(r, nid m) \<in> (edge_rel ?out)\<^sup>*" if m: "m \<in> set ns" for m
  proof (cases "nid m \<in> endpoints ?S")
    case True
    then show ?thesis by (intro fromroot) simp
  next
    case False
    then obtain p where p: "p = r \<or> p \<in> endpoints ?S" "(p, nid m) \<in> (edge_rel ?Y)\<^sup>*"
      using h3 r(1) m by blast
    have a: "(r, p) \<in> (edge_rel ?out)\<^sup>*" using p(1) by (rule fromroot)
    have b: "(p, nid m) \<in> (edge_rel ?out)\<^sup>*" using p(2) monoY by blast
    show ?thesis using a b by (rule rtrancl_trans)
  qed
  have root_no: "nid n = r \<Longrightarrow> no_incoming ?out n" for n
    using r(2) rY by (simp add: no_incoming_def)
  have other_in: "\<not> no_incoming ?out n" if n: "n \<in> set ns" "nid n \<noteq> r" for n
  proof -
    have "(r, nid n) \<in> (edge_rel ?out)\<^sup>*" using n(1) by (rule reach)
    moreover have "r \<noteq> nid n" using n(2) by simp
    ultimately have "nid n \<in> set (map target ?out)" by (rule reach_target)
    then show ?thesis by (simp add: no_incoming_def)
  qed
  have iff: "n \<in> set ns \<and> no_incoming ?out n \<longleftrightarrow> n \<in> set ns \<and> nid n = r" for n
    using root_no other_in by blast
  have "\<exists>!n. n \<in> set ns \<and> nid n = r" using d rN by (rule unique_by_id)
  then have u: "\<exists>!n. n \<in> set ns \<and> no_incoming ?out n" by (simp only: iff)
  have "(nid n, nid m) \<in> (edge_rel ?out)\<^sup>*"
    if "n \<in> set ns" "no_incoming ?out n" "m \<in> set ns" for n m
  proof -
    have "nid n = r" using that(1,2) iff by blast
    then show ?thesis using reach[OF that(3)] by simp
  qed
  then show ?thesis using u by blast
qed

lemma rooted_necessary:
  assumes u: "\<exists>n. n \<in> set ns \<and> no_incoming (surviving ns es @ synthesized ns es) n"
    and rch: "\<forall>n m. n \<in> set ns \<and> no_incoming (surviving ns es @ synthesized ns es) n \<and> m \<in> set ns
              \<longrightarrow> (nid n, nid m) \<in> (edge_rel (surviving ns es @ synthesized ns es))\<^sup>*"
  shows "(\<exists>n\<in>set ns. nid n \<notin> set (map target (surviving ns es)))
       \<and> (\<forall>r i. chosen_root ns es = Some r \<and> i \<in> endpoints (surviving ns es) \<longrightarrow> (r, i) \<in> (edge_rel (surviving ns es))\<^sup>*)
       \<and> (\<forall>r n. chosen_root ns es = Some r \<and> n \<in> set ns \<and> nid n \<notin> endpoints (surviving ns es)
               \<longrightarrow> (\<exists>p. (p = r \<or> p \<in> endpoints (surviving ns es)) \<and> (p, nid n) \<in> (edge_rel (synthesized ns es))\<^sup>*))"
proof -
  let ?S = "surviving ns es" and ?Y = "synthesized ns es"
  let ?out = "?S @ ?Y"
  obtain n0 where n0: "n0 \<in> set ns" "no_incoming ?out n0" using u by blast
  have "nid n0 \<notin> set (map target ?S)" using n0(2) by (simp add: no_incoming_def)
  then have h1: "\<exists>n\<in>set ns. nid n \<notin> set (map target ?S)" using n0(1) by blast
  have fromroot: "(r, nid m) \<in> (edge_rel ?S \<union> edge_rel ?Y)\<^sup>*"
    if r: "chosen_root ns es = Some r" and m: "m \<in> set ns" for r m
  proof -
    obtain r' where r': "chosen_root ns es = Some r'" "r' \<notin> set (map target ?S)"
      using roots_chosen[OF h1] by blast
    have rS: "r \<notin> set (map target ?S)" using r r' by simp
    have rY: "r \<notin> set (map target ?Y)" using r by (rule root_not_pushed)
    have "r \<in> set (map nid ns)" using r by (rule chosen_root_is_node)
    then obtain nr where nr: "nr \<in> set ns" "nid nr = r" by auto
    have "no_incoming ?out nr" using rS rY nr(2) by (simp add: no_incoming_def)
    then have "(nid nr, nid m) \<in> (edge_rel ?out)\<^sup>*" using rch nr(1) m by blast
    then show ?thesis by (simp only: nr(2) edge_rel_Un)
  qed
  have h2: "(r, i) \<in> (edge_rel ?S)\<^sup>*" if r: "chosen_root ns es = Some r" and i: "i \<in> endpoints ?S" for r i
  proof -
    have "i \<in> set (map nid ns)" using i surviving_valid[of _ ns es] by (auto simp: endpoints_def)
    then obtain m where m: "m \<in> set ns" "nid m = i" by auto
    have p: "(r, i) \<in> (edge_rel ?S \<union> edge_rel ?Y)\<^sup>*" using fromroot[OF r m(1)] by (simp only: m(2))
    have a: "\<forall>y z. (y, z) \<in> edge_rel ?Y \<longrightarrow> z \<in> - endpoints ?S"
      using pushed_not_endpoint by blast
    have b: "\<forall>y z. (y, z) \<in> edge_rel ?S \<longrightarrow> y \<notin> - endpoints ?S"
      using edge_rel_source by (fastforce simp: endpoints_def)
    have c: "i \<notin> - endpoints ?S" using i by simp
    show ?thesis using p c a b by (rule path_avoiding)
  qed
  have h3: "\<exists>p. (p = r \<or> p \<in> endpoints ?S) \<and> (p, nid n) \<in> (edge_rel ?Y)\<^sup>*"
    if r: "chosen_root ns es = Some r" and n: "n \<in> set ns" for r n
  proof -
    obtain p where p: "p = r \<or> p \<in> Range (edge_rel ?S)" "(p, nid n) \<in> (edge_rel ?Y)\<^sup>*"
      using path_tail[OF fromroot[OF r n]] by blast
    have "Range (edge_rel ?S) \<subseteq> endpoints ?S"
      using edge_rel_target by (fastforce simp: endpoints_def)
    then show ?thesis using p by blast
  qed
  show ?thesis using h1 h2 h3 by blast
qed

text \<open>
  C1 (as amended). With pairwise distinct node ids, after \<open>loadGraph\<close> or \<open>refreshGraph\<close> every
  node other than the chosen root is an endpoint of some edge of the result. Exactly one node has
  no incoming edge in the result, with every node reachable from it along the edges of the
  result, if and only if the input is rooted in this sense: some node has no incoming surviving
  edge, every endpoint of a surviving edge is reachable from the chosen root along surviving
  edges, and every node that is no endpoint of a surviving edge is reached from the chosen root
  or from an endpoint of a surviving edge along the pushed edges (which lead from the
  \<open>parentId\<close> of a node, when that is a non-empty node id, and else from the chosen root, to the
  node).
\<close>

theorem C1_single_root:
  assumes "distinct (map nid ns)"
    and "r = loadGraph st (Some ns) (Some es) \<or> r = refreshGraph st (Some ns) (Some es)"
  shows "(\<forall>n\<in>set ns. Some (nid n) \<noteq> chosen_root ns es \<longrightarrow> nid n \<in> endpoints (store_edges (snd r)))
       \<and> (((\<exists>!n. n \<in> set ns \<and> no_incoming (store_edges (snd r)) n)
              \<and> (\<forall>n m. n \<in> set ns \<and> no_incoming (store_edges (snd r)) n \<and> m \<in> set ns
                    \<longrightarrow> (nid n, nid m) \<in> (edge_rel (store_edges (snd r)))\<^sup>*))
            \<longleftrightarrow>
            ((\<exists>n\<in>set ns. nid n \<notin> set (map target (surviving ns es)))
              \<and> (\<forall>root i. chosen_root ns es = Some root \<and> i \<in> endpoints (surviving ns es)
                    \<longrightarrow> (root, i) \<in> (edge_rel (surviving ns es))\<^sup>*)
              \<and> (\<forall>root n. chosen_root ns es = Some root \<and> n \<in> set ns \<and> nid n \<notin> endpoints (surviving ns es)
                    \<longrightarrow> (\<exists>p. (p = root \<or> p \<in> endpoints (surviving ns es))
                              \<and> (p, nid n) \<in> (edge_rel (synthesized ns es))\<^sup>*))))"
proof -
  note out = fixed_eq(2)[OF assms(2)]
  let ?one = "(\<exists>!n. n \<in> set ns \<and> no_incoming (store_edges (snd r)) n)
              \<and> (\<forall>n m. n \<in> set ns \<and> no_incoming (store_edges (snd r)) n \<and> m \<in> set ns
                    \<longrightarrow> (nid n, nid m) \<in> (edge_rel (store_edges (snd r)))\<^sup>*)"
  let ?rooted = "(\<exists>n\<in>set ns. nid n \<notin> set (map target (surviving ns es)))
              \<and> (\<forall>root i. chosen_root ns es = Some root \<and> i \<in> endpoints (surviving ns es)
                    \<longrightarrow> (root, i) \<in> (edge_rel (surviving ns es))\<^sup>*)
              \<and> (\<forall>root n. chosen_root ns es = Some root \<and> n \<in> set ns \<and> nid n \<notin> endpoints (surviving ns es)
                    \<longrightarrow> (\<exists>p. (p = root \<or> p \<in> endpoints (surviving ns es))
                              \<and> (p, nid n) \<in> (edge_rel (synthesized ns es))\<^sup>*))"
  have A: "\<forall>n\<in>set ns. Some (nid n) \<noteq> chosen_root ns es \<longrightarrow> nid n \<in> endpoints (store_edges (snd r))"
    unfolding out using every_node_touched by blast
  have B: ?one if h: ?rooted
  proof -
    have h1: "\<exists>n\<in>set ns. nid n \<notin> set (map target (surviving ns es))" using h by (elim conjE)
    have h2: "\<forall>root i. chosen_root ns es = Some root \<and> i \<in> endpoints (surviving ns es)
                    \<longrightarrow> (root, i) \<in> (edge_rel (surviving ns es))\<^sup>*" using h by (elim conjE)
    have h3: "\<forall>root n. chosen_root ns es = Some root \<and> n \<in> set ns \<and> nid n \<notin> endpoints (surviving ns es)
                    \<longrightarrow> (\<exists>p. (p = root \<or> p \<in> endpoints (surviving ns es))
                              \<and> (p, nid n) \<in> (edge_rel (synthesized ns es))\<^sup>*)" using h by (elim conjE)
    show ?thesis unfolding out using assms(1) h1 h2 h3 by (rule rooted_sufficient)
  qed
  have C: ?rooted if h: ?one
  proof -
    have u: "\<exists>n. n \<in> set ns \<and> no_incoming (surviving ns es @ synthesized ns es) n"
      using h unfolding out by blast
    have rch: "\<forall>n m. n \<in> set ns \<and> no_incoming (surviving ns es @ synthesized ns es) n \<and> m \<in> set ns
              \<longrightarrow> (nid n, nid m) \<in> (edge_rel (surviving ns es @ synthesized ns es))\<^sup>*"
      using h unfolding out by (elim conjE)
    show ?thesis using u rch by (rule rooted_necessary)
  qed
  have "?one \<longleftrightarrow> ?rooted" using B C by (rule iffI[rotated])
  then show ?thesis using A by (rule conjI[rotated])
qed

lemma chain_nodes_eval:
  "store_edges (snd (loadGraph new_store (Some chain_nodes) (Some [])))
     = [synth_edge (str ''root'') (str ''A''), synth_edge (str ''A'') (str ''B'')]"
  "fst (loadGraph new_store (Some chain_nodes) (Some [])) = 2"
  by (simp_all add: chain_nodes_def loadGraph_def refreshGraph_def ensureGraphIntegrity_def find_rootId_def connected_ids_def
      synth_edge_def edge_pair_def edge_key_def arrow_def str_def or_else_def Let_def new_store_def mk_node_def mk_edge_def)

lemma chain_nodes_facts:
  "distinct (map nid chain_nodes)"
  "surviving chain_nodes [] = []"
  "chosen_root chain_nodes [] = Some (str ''root'')"
  "synthesized chain_nodes [] = [synth_edge (str ''root'') (str ''A''), synth_edge (str ''A'') (str ''B'')]"
  by (simp_all add: chain_nodes_def surviving_def valid_edges_def chosen_root_def find_rootId_def synthesized_def
        isolated_def dangling_def connected_ids_def reconnect_source_def
        mk_node_def mk_edge_def str_def edge_key_def arrow_def)

text \<open>
  C1 at the chain root, A (parent root), B (parent A) without any edge: the repair pushes the
  edges from root to A and from A to B, and the result has the single root with A and B
  reachable from it.
\<close>

theorem C1_witness:
  "fst (loadGraph new_store (Some chain_nodes) (Some [])) = 2
   \<and> (\<exists>!n. n \<in> set chain_nodes \<and> no_incoming (store_edges (snd (loadGraph new_store (Some chain_nodes) (Some [])))) n)
   \<and> (str ''root'', str ''A'') \<in> (edge_rel (store_edges (snd (loadGraph new_store (Some chain_nodes) (Some [])))))\<^sup>*
   \<and> (str ''root'', str ''B'') \<in> (edge_rel (store_edges (snd (loadGraph new_store (Some chain_nodes) (Some [])))))\<^sup>*"
proof -
  let ?r = "loadGraph new_store (Some chain_nodes) (Some [])"
  let ?Y = "edge_rel (synthesized chain_nodes [])"
  have ep: "endpoints (surviving chain_nodes []) = {}"
    by (simp add: chain_nodes_facts endpoints_def)
  have ids: "nid ` set chain_nodes = {str ''root'', str ''A'', str ''B''}"
    by (auto simp: chain_nodes_def mk_node_def)
  have ra: "(str ''root'', str ''A'') \<in> ?Y" and ab: "(str ''A'', str ''B'') \<in> ?Y"
    by (simp_all add: chain_nodes_facts edge_rel_def edge_pair_def synth_edge_def)
  have p0: "(str ''root'', str ''root'') \<in> ?Y\<^sup>*" by simp
  have p1: "(str ''root'', str ''A'') \<in> ?Y\<^sup>*" using ra by (rule r_into_rtrancl)
  have p2: "(str ''root'', str ''B'') \<in> ?Y\<^sup>*" using p1 ab by (rule rtrancl_into_rtrancl)
  have all: "(str ''root'', nid n) \<in> ?Y\<^sup>*" if "n \<in> set chain_nodes" for n
  proof -
    have "nid n \<in> {str ''root'', str ''A'', str ''B''}" using that ids by blast
    then show ?thesis using p0 p1 p2 by (elim insertE emptyE) simp_all
  qed
  have "mk_node ''root'' ''root'' None \<in> set chain_nodes" by (simp add: chain_nodes_def)
  moreover have "nid (mk_node ''root'' ''root'' None) \<notin> set (map target (surviving chain_nodes []))"
    by (simp add: chain_nodes_facts)
  ultimately have h1: "\<exists>n\<in>set chain_nodes. nid n \<notin> set (map target (surviving chain_nodes []))"
    by (rule bexI[rotated])
  have h2: "\<forall>root i. chosen_root chain_nodes [] = Some root \<and> i \<in> endpoints (surviving chain_nodes [])
                \<longrightarrow> (root, i) \<in> (edge_rel (surviving chain_nodes []))\<^sup>*"
    unfolding ep by simp
  have h3: "\<forall>root n. chosen_root chain_nodes [] = Some root \<and> n \<in> set chain_nodes
                \<and> nid n \<notin> endpoints (surviving chain_nodes [])
                \<longrightarrow> (\<exists>p. (p = root \<or> p \<in> endpoints (surviving chain_nodes []))
                          \<and> (p, nid n) \<in> ?Y\<^sup>*)"
    unfolding chain_nodes_facts(3) using all by blast
  have root_in: "mk_node ''root'' ''root'' None \<in> set chain_nodes"
    and a_in: "mk_node ''A'' ''A'' (Some ''root'') \<in> set chain_nodes"
    and b_in: "mk_node ''B'' ''B'' (Some ''A'') \<in> set chain_nodes"
    by (simp_all add: chain_nodes_def)
  have no: "no_incoming (store_edges (snd ?r)) (mk_node ''root'' ''root'' None)"
    by (simp add: chain_nodes_eval no_incoming_def synth_edge_def mk_node_def str_def)
  note t = C1_single_root[OF chain_nodes_facts(1), of ?r new_store "[]"]
  have c: "(\<exists>!n. n \<in> set chain_nodes \<and> no_incoming (store_edges (snd ?r)) n)
              \<and> (\<forall>n m. n \<in> set chain_nodes \<and> no_incoming (store_edges (snd ?r)) n \<and> m \<in> set chain_nodes
                    \<longrightarrow> (nid n, nid m) \<in> (edge_rel (store_edges (snd ?r)))\<^sup>*)"
    using t h1 h2 h3 by blast
  then have "(nid (mk_node ''root'' ''root'' None), nid (mk_node ''A'' ''A'' (Some ''root''))) \<in> (edge_rel (store_edges (snd ?r)))\<^sup>*"
    and "(nid (mk_node ''root'' ''root'' None), nid (mk_node ''B'' ''B'' (Some ''A''))) \<in> (edge_rel (store_edges (snd ?r)))\<^sup>*"
    using root_in a_in b_in no by blast+
  then show ?thesis using c chain_nodes_eval(2) by (simp add: mk_node_def)
qed

text \<open>
  C1 as stated fails for a forest with two roots: every node is an endpoint of an edge, so
  nothing is repaired and both roots stay without an incoming edge.
\<close>

theorem C1_counterexample:
  "forest_nodes ! 0 \<noteq> forest_nodes ! 1
   \<and> no_incoming (store_edges (snd (loadGraph new_store (Some forest_nodes) (Some forest_edges)))) (forest_nodes ! 0)
   \<and> no_incoming (store_edges (snd (loadGraph new_store (Some forest_nodes) (Some forest_edges)))) (forest_nodes ! 1)
   \<and> fst (loadGraph new_store (Some forest_nodes) (Some forest_edges)) = 0"
  by (simp add: forest_nodes_def forest_edges_def no_incoming_def eval_defs)

section \<open>Properties of the engine\<close>

lemma map_update_frame:
  "g n' = g (ns ! k) \<Longrightarrow> map g (ns[k := n']) = map g ns"
  by (simp add: map_update list_update_same_conv) (metis list_update_beyond list_update_id map_update not_le_imp_less nth_map)

lemma fold_frame:
  "(\<And>a ms. g (step a ms) = g ms) \<Longrightarrow> g (fold step xs ns) = g ns"
  by (induction xs arbitrary: ns) auto

lemma repel_pair_frame: "map strip_motion (repel_pair al a b ns) = map strip_motion ns"
  by (simp add: repel_pair_def Let_def map_update_frame strip_motion_def)

lemma nbody_frame: "map strip_motion (nbody al active ns) = map strip_motion ns"
  unfolding nbody_def by (rule fold_frame) (simp add: split_def repel_pair_frame)

lemma grid_pull_frame: "map strip_motion (grid_pull al n m ns) = map strip_motion ns"
  by (simp add: grid_pull_def Let_def map_update_frame strip_motion_def)

lemma gridRepulsion_frame: "map strip_motion (gridRepulsion active al ns) = map strip_motion ns"
proof -
  have g: "map strip_motion (fold (grid_pull al n) ms ks) = map strip_motion ks" for n ms ks
    by (rule fold_frame) (rule grid_pull_frame)
  show ?thesis
    unfolding gridRepulsion_def Let_def
    by (intro fold_frame) (simp add: split_def g)
qed

lemma spring_frame: "map strip_motion (spring al m e ns) = map strip_motion ns"
  by (simp add: spring_def Let_def map_update_frame strip_motion_def split: option.splits)

lemma centering_frame: "map strip_motion (centering al active ns) = map strip_motion ns"
  unfolding centering_def Let_def
  by (rule fold_frame) (simp add: map_update_frame strip_motion_def)


lemma radial_node_frame: "map strip_motion (radial_node al k ns) = map strip_motion ns"
  by (simp add: radial_node_def Let_def map_update_frame strip_motion_def)

lemma collide_pair_frame: "map strip_motion (collide_pair a b ns) = map strip_motion ns"
  by (simp add: collide_pair_def Let_def map_update_frame strip_motion_def)



lemma index_map_range: "index_map ns i = Some k \<Longrightarrow> k < length ns"
proof -
  assume "index_map ns i = Some k"
  then have "(i, k) \<in> set (rev (zip (map nid ns) [0..<length ns]))"
    unfolding index_map_def by (rule map_of_SomeD)
  then have "k \<in> set [0..<length ns]" by (auto dest: set_zip_rightD)
  then show ?thesis by simp
qed


lemma strip_motion_nth:
  assumes "map strip_motion ns' = map strip_motion ns" "k < length ns"
  shows "strip_motion (ns' ! k) = strip_motion (ns ! k)"
proof -
  have "length ns' = length ns" using assms(1) by (metis length_map)
  then show ?thesis using assms by (metis nth_map)
qed

lemma strip_motion_fields:
  assumes "strip_motion a = strip_motion b"
  shows "parentId a = parentId b" "collapsed a = collapsed b" "fx a = fx b" "fy a = fy b" "nid a = nid b"
proof -
  have "parentId (strip_motion a) = parentId (strip_motion b)" "collapsed (strip_motion a) = collapsed (strip_motion b)"
    "fx (strip_motion a) = fx (strip_motion b)" "fy (strip_motion a) = fy (strip_motion b)"
    "nid (strip_motion a) = nid (strip_motion b)"
    using assms by simp_all
  then show "parentId a = parentId b" "collapsed a = collapsed b" "fx a = fx b" "fy a = fy b" "nid a = nid b"
    by (simp_all add: strip_motion_def)
qed





lemma active_loop_range:
  "active_loop ns m ks acc = Some active \<Longrightarrow> set active \<subseteq> set acc \<union> set ks"
proof (induction ks arbitrary: acc)
  case Nil
  then show ?case by simp
next
  case (Cons k ks)
  then obtain h where h: "isHidden ns m k = Some h" "active_loop ns m ks (if h then acc else acc @ [k]) = Some active"
    by (auto split: Option.bind_splits)
  then show ?case using Cons.IH[OF h(2)] by (auto split: if_splits)
qed

lemma getActiveNodes_range:
  "getActiveNodes ns = Some active \<Longrightarrow> k \<in> set active \<Longrightarrow> k < length ns"
  using active_loop_range[of ns "index_map ns" "[0..<length ns]" "[]" active]
  by (auto simp: getActiveNodes_def)


lemma applyForces_total:
  "getActiveNodes (nodes s) = Some active \<Longrightarrow> \<exists>s'. applyForces s = Some s'"
  by (simp add: applyForces_def Let_def)

lemma integrate_node_pinned:
  "k < length ns \<Longrightarrow> pinned_at a b (ns ! k) \<Longrightarrow> pinned_at a b (integrate_node j ns ! k)"
  by (cases "j = k") (simp_all add: integrate_node_def pinned_at_def Let_def)

lemma integrate_node_snapped:
  "k < length ns \<Longrightarrow> snapped_at a b (ns ! k) \<Longrightarrow> snapped_at a b (integrate_node j ns ! k)"
  by (cases "j = k") (simp_all add: integrate_node_def snapped_at_def Let_def)

lemma integrate_node_snaps:
  "k < length ns \<Longrightarrow> pinned_at a b (ns ! k) \<Longrightarrow> snapped_at a b (integrate_node k ns ! k)"
  by (simp add: integrate_node_def snapped_at_def pinned_at_def Let_def)

lemma integrate_node_length: "length (integrate_node j ns) = length ns"
  by (simp add: integrate_node_def Let_def)

lemma snap_pinned_pinned:
  "k < length ns \<Longrightarrow> pinned_at a b (ns ! k) \<Longrightarrow> pinned_at a b (snap_pinned j ns ! k)"
  by (cases "j = k") (simp_all add: snap_pinned_def pinned_at_def)

lemma snap_pinned_snapped:
  "k < length ns \<Longrightarrow> snapped_at a b (ns ! k) \<Longrightarrow> snapped_at a b (snap_pinned j ns ! k)"
  by (cases "j = k") (simp_all add: snap_pinned_def snapped_at_def)

lemma snap_pinned_snaps:
  "k < length ns \<Longrightarrow> pinned_at a b (ns ! k) \<Longrightarrow> snapped_at a b (snap_pinned k ns ! k)"
  by (simp add: snap_pinned_def snapped_at_def pinned_at_def)

lemma snap_pinned_length: "length (snap_pinned j ns) = length ns"
  by (simp add: snap_pinned_def)

lemma fold_keeps:
  assumes "\<And>j ms. length (step j ms) = length ms"
    and "\<And>j ms. k < length ms \<Longrightarrow> Q (ms ! k) \<Longrightarrow> Q (step j ms ! k)"
  shows "k < length ns \<Longrightarrow> Q (ns ! k) \<Longrightarrow> Q (fold step ks ns ! k)"
proof (induction ks arbitrary: ns)
  case Nil
  then show ?case by simp
next
  case (Cons j ks)
  have "k < length (step j ns)" "Q (step j ns ! k)" using Cons.prems assms by simp_all
  then show ?case using Cons.IH by simp
qed

lemma fold_reaches:
  assumes len: "\<And>j ms. length (step j ms) = length ms"
    and keepP: "\<And>j ms. k < length ms \<Longrightarrow> P (ms ! k) \<Longrightarrow> P (step j ms ! k)"
    and keepQ: "\<And>j ms. k < length ms \<Longrightarrow> Q (ms ! k) \<Longrightarrow> Q (step j ms ! k)"
    and hit: "\<And>ms. k < length ms \<Longrightarrow> P (ms ! k) \<Longrightarrow> Q (step k ms ! k)"
  shows "k \<in> set ks \<Longrightarrow> k < length ns \<Longrightarrow> P (ns ! k) \<Longrightarrow> Q (fold step ks ns ! k)"
proof (induction ks arbitrary: ns)
  case Nil
  then show ?case by simp
next
  case (Cons j ks)
  show ?case
  proof (cases "j = k")
    case True
    have "k < length (step k ns)" "Q (step k ns ! k)" using Cons.prems len hit by simp_all
    then have "Q (fold step ks (step k ns) ! k)"
      using len keepQ by (intro fold_keeps[where Q = Q and step = step]) auto
    then show ?thesis using True by simp
  next
    case False
    then have "k \<in> set ks" using Cons.prems by simp
    moreover have "k < length (step j ns)" "P (step j ns ! k)" using Cons.prems len keepP by simp_all
    ultimately show ?thesis using Cons.IH by simp
  qed
qed

lemma integrate_fold_snaps:
  "k \<in> set ks \<Longrightarrow> k < length ns \<Longrightarrow> pinned_at a b (ns ! k) \<Longrightarrow> snapped_at a b (fold integrate_node ks ns ! k)"
  by (rule fold_reaches[where P = "pinned_at a b" and Q = "snapped_at a b" and step = integrate_node])
     (simp_all add: integrate_node_length integrate_node_pinned integrate_node_snapped integrate_node_snaps)

lemma snap_fold_snaps:
  "k \<in> set ks \<Longrightarrow> k < length ns \<Longrightarrow> pinned_at a b (ns ! k) \<Longrightarrow> snapped_at a b (fold snap_pinned ks ns ! k)"
  by (rule fold_reaches[where P = "pinned_at a b" and Q = "snapped_at a b" and step = snap_pinned])
     (simp_all add: snap_pinned_length snap_pinned_pinned snap_pinned_snapped snap_pinned_snaps)

lemma pinned_frame:
  assumes "map strip_motion ns' = map strip_motion ns" "k < length ns" "pinned_at a b (ns ! k)"
  shows "k < length ns' \<and> pinned_at a b (ns' ! k)"
proof -
  have "length ns' = length ns" using assms(1) by (metis length_map)
  moreover have "fx (ns' ! k) = fx (ns ! k)" "fy (ns' ! k) = fy (ns ! k)"
    using strip_motion_nth[OF assms(1,2)] by (rule strip_motion_fields)+
  ultimately show ?thesis using assms(2,3) by (simp add: pinned_at_def)
qed

lemma applyForces_pins:
  assumes af: "applyForces s = Some s'"
    and act: "getActiveNodes (nodes s) = Some active" "k \<in> set active"
    and pin: "pinned_at a b (nodes s ! k)"
  shows "snapped_at a b (nodes s' ! k)"
proof -
  have kl: "k < length (nodes s)" using act by (rule getActiveNodes_range)
  have ne: "active \<noteq> []" using act(2) by auto
  let ?al = "alpha s"
  let ?ns1 = "if length active \<le> 600 then nbody ?al active (nodes s) else gridRepulsion active ?al (nodes s)"
  let ?ns2 = "fold (spring ?al (active_map ?ns1 active)) (getActiveEdges (nodes s) (edges s) active) ?ns1"
  let ?ns3 = "if mode s = Free then centering ?al active ?ns2 else ?ns2"
  let ?ns4 = "if mode s = Radial then fold (radial_node ?al) active ?ns3 else ?ns3"
  let ?ns5 = "fold (\<lambda>(i, j). collide_pair (active ! i) (active ! j)) (index_pairs (length active)) ?ns4"
  have f1: "map strip_motion ?ns1 = map strip_motion (nodes s)"
    by (simp add: nbody_frame gridRepulsion_frame)
  have f2: "map strip_motion ?ns2 = map strip_motion ?ns1"
    by (rule fold_frame) (rule spring_frame)
  have f3: "map strip_motion ?ns3 = map strip_motion ?ns2"
    by (simp add: centering_frame)
  have f4: "map strip_motion ?ns4 = map strip_motion ?ns3"
  proof (cases "mode s = Radial")
    case True
    have "map strip_motion (fold (radial_node ?al) active ?ns3) = map strip_motion ?ns3"
      by (rule fold_frame) (rule radial_node_frame)
    then show ?thesis using True by simp
  next
    case False
    then show ?thesis by simp
  qed
  have f5: "map strip_motion ?ns5 = map strip_motion ?ns4"
    by (rule fold_frame) (simp add: split_def collide_pair_frame)
  have p3: "k < length ?ns3 \<and> pinned_at a b (?ns3 ! k)"
    using pinned_frame[OF _ kl pin, of ?ns3] f1 f2 f3 by simp
  show ?thesis
  proof (cases "mode s = Strict")
    case True
    then have "nodes s' = fold snap_pinned active ?ns3"
      using af act(1) ne by (auto simp: applyForces_def Let_def)
    then show ?thesis using snap_fold_snaps[OF act(2), of ?ns3 a b] p3 by simp
  next
    case False
    then have n: "nodes s' = fold integrate_node active ?ns5"
      using af act(1) ne by (auto simp: applyForces_def Let_def)
    have "map strip_motion ?ns5 = map strip_motion (nodes s)" using f1 f2 f3 f4 f5 by simp
    then have "k < length ?ns5 \<and> pinned_at a b (?ns5 ! k)" using kl pin by (rule pinned_frame)
    then show ?thesis using integrate_fold_snaps[OF act(2), of ?ns5 a b] n by simp
  qed
qed

text \<open>
  C7 (as amended). In a tick that applies forces (the engine is running and the energy is at
  least \<open>alphaMin\<close>), every active node, that is every node that \<open>_getActiveNodes\<close> returns, whose
  \<open>fx\<close> and \<open>fy\<close> are non-null at the start of the tick has \<open>x = fx\<close>, \<open>y = fy\<close> and
  \<open>vx = vy = 0\<close> after it, in every layout mode and whatever the forces contribute.
\<close>

theorem C7_pin_dominance:
  assumes "tick s = Some s'" and "running s" and "alphaMin \<le> alpha s"
    and "getActiveNodes (nodes s) = Some active" and "k \<in> set active"
    and "fx (nodes s ! k) = Some a" and "fy (nodes s ! k) = Some b"
  shows "x_pos (nodes s' ! k) = Some a \<and> y_pos (nodes s' ! k) = Some b
       \<and> vx (nodes s' ! k) = 0 \<and> vy (nodes s' ! k) = 0"
proof -
  obtain s1 where s1: "applyForces s = Some s1" using applyForces_total[OF assms(4)] by blast
  have "nodes s' = nodes s1" using assms(1,2,3) s1 by (auto simp: tick_def notify_def)
  moreover have "snapped_at a (Some b) (nodes s1 ! k)"
    using s1 assms(4,5) by (rule applyForces_pins) (simp add: pinned_at_def assms)
  ultimately show ?thesis by (simp add: snapped_at_def)
qed

lemma hidden_active: "getActiveNodes hidden_nodes = Some [0]"
  by (simp add: hidden_nodes_def getActiveNodes_def index_map_def isHidden.simps mk_node_def str_def upt_rec)

lemma pinned_active: "getActiveNodes (nodes pinned_layout) = Some [0]"
  by (simp add: pinned_layout_def getActiveNodes_def index_map_def isHidden.simps mk_node_def str_def)

text \<open>C7 at a single pinned node at depth 1 in radial mode.\<close>

theorem C7_witness:
  "\<exists>s'. tick pinned_layout = Some s' \<and> x_pos (nodes s' ! 0) = Some 5 \<and> y_pos (nodes s' ! 0) = Some 7
        \<and> vx (nodes s' ! 0) = 0 \<and> vy (nodes s' ! 0) = 0"
proof -
  obtain s1 where "applyForces pinned_layout = Some s1"
    using applyForces_total[OF pinned_active] by blast
  then obtain s' where t: "tick pinned_layout = Some s'"
    by (simp add: tick_def pinned_layout_def alphaMin_def)
  have r: "running pinned_layout" "alphaMin \<le> alpha pinned_layout"
    by (simp_all add: pinned_layout_def alphaMin_def)
  have p: "fx (nodes pinned_layout ! 0) = Some 5" "fy (nodes pinned_layout ! 0) = Some 7"
    by (simp_all add: pinned_layout_def)
  from C7_pin_dominance[OF t r pinned_active _ p] t show ?thesis by simp
qed

text \<open>
  C7 as stated fails for a pinned node below a collapsed parent: it is not active, and the tick
  leaves its position where it was.
\<close>

theorem C7_counterexample:
  "fx (nodes hidden_layout ! 1) = Some 5 \<and> fy (nodes hidden_layout ! 1) = Some 5
   \<and> running hidden_layout \<and> alphaMin \<le> alpha hidden_layout
   \<and> map_option (\<lambda>s'. (x_pos (nodes s' ! 1), y_pos (nodes s' ! 1))) (tick hidden_layout) = Some (Some 1, Some 1)"
proof -
  have "applyForces hidden_layout = Some (hidden_layout\<lparr>nodes := integrate_node 0 hidden_nodes\<rparr>)"
    by (simp add: applyForces_def hidden_layout_def hidden_active nbody_def index_pairs_def getActiveEdges_def
          centering_def Let_def collide_pair_def)
  then show ?thesis
    by (simp add: tick_def hidden_layout_def alphaMin_def notify_def)
       (simp add: hidden_nodes_def integrate_node_def Let_def mk_node_def)
qed






















section \<open>Properties of the depth calculator and the strict layout\<close>

lemma bfs_init_annot: "map strip_annot (fst (bfs_init roots ns)) = map strip_annot ns"
proof -
  have "map strip_annot (fst (fold (\<lambda>r (ns, bfsVisited, queue).
             (ns[r := (ns ! r)\<lparr>depth := 0\<rparr>], insert (nid (ns ! r)) bfsVisited, queue @ [r])) roots st))
        = map strip_annot (fst st)" for st
    by (induction roots arbitrary: st) (auto simp: split_def map_update_frame strip_annot_def)
  then show ?thesis by (simp add: bfs_init_def)
qed

lemma bfs_children_annot:
  "map strip_annot (fst (bfs_children m c cs st)) = map strip_annot (fst st)"
  by (induction m c cs st rule: bfs_children.induct)
     (auto simp: map_update_frame strip_annot_def split: option.splits)

lemma bfs_loop_annot:
  assumes "bfs_loop m cm st = Some st'"
  shows "map strip_annot (fst st') = map strip_annot (fst st)"
  using assms
proof (induction rule: bfs_loop.raw_induct[rotated 1, consumes 1])
  case (1 bfs_loop' m cm st st')
  show ?case
  proof (cases "snd (snd st)")
    case Nil
    then show ?thesis using "1.hyps" by simp
  next
    case (Cons c rest)
    let ?st1 = "bfs_children m c (case cm (nid (fst st ! c)) of Some cs \<Rightarrow> cs | None \<Rightarrow> []) (fst st, fst (snd st), rest)"
    have "bfs_loop' m cm ?st1 = Some st'" using "1.hyps" Cons by simp
    then have "map strip_annot (fst st') = map strip_annot (fst ?st1)" by (rule "1.IH")
    then show ?thesis by (simp add: bfs_children_annot)
  qed
qed

lemma fallback_annot: "map strip_annot (fallback_depths ns) = map strip_annot ns"
  by (simp add: fallback_depths_def Let_def strip_annot_def)

lemma assign_counts_annot: "map strip_annot (assign_counts md ns) = map strip_annot ns"
  by (simp add: assign_counts_def Let_def strip_annot_def)

lemma reset_annot: "map strip_annot (map reset_node ns) = map strip_annot ns"
  by (simp add: reset_node_def strip_annot_def)

lemma visit_all_frame:
  assumes g: "\<And>n v i. g (n\<lparr>visited := v, vIndex := i\<rparr>) = g n"
    and "visit_all lc m cm st ids = Some st'"
  shows "map g (fst st') = map g (fst st)"
  using assms(2)
proof (induction rule: visit_all.raw_induct[rotated 1, consumes 1])
  case (1 visit_all' lc m cm st ids st')
  show ?case
  proof (cases ids)
    case Nil
    then show ?thesis using "1.hyps" by simp
  next
    case (Cons i rest)
    show ?thesis
    proof (cases "m i")
      case None
      then have "visit_all' lc m cm st rest = Some st'" using "1.hyps" Cons by simp
      then show ?thesis by (rule "1.IH")
    next
      case (Some k)
      show ?thesis
      proof (cases "visited (fst st ! k)")
        case True
        then have "visit_all' lc m cm st rest = Some st'" using "1.hyps" Cons Some by simp
        then show ?thesis by (rule "1.IH")
      next
        case False
        let ?d = "depth (fst st ! k)"
        let ?vi = "case snd st ?d of Some v \<Rightarrow> v | None \<Rightarrow> 0"
        let ?ns1 = "(fst st)[k := (fst st ! k)\<lparr>visited := True, vIndex := ?vi\<rparr>]"
        let ?st1 = "(?ns1, (snd st)(?d \<mapsto> ?vi + 1))"
        obtain st2 where st2: "visit_all' lc m cm ?st1 (sorted_children lc m cm ?ns1 i) = Some st2"
            "visit_all' lc m cm st2 rest = Some st'"
          using "1.hyps" Cons Some False by (auto simp: Let_def split: Option.bind_splits)
        have "map g (fst st') = map g (fst st2)" using st2(2) by (rule "1.IH")
        also have "\<dots> = map g (fst ?st1)" using st2(1) by (rule "1.IH")
        also have "\<dots> = map g (fst st)" by (simp add: map_update_frame g)
        finally show ?thesis .
      qed
    qed
  qed
qed

lemma sweep_frame:
  assumes g: "\<And>n v i. g (n\<lparr>visited := v, vIndex := i\<rparr>) = g n"
  shows "sweep lc m cm ks st = Some st' \<Longrightarrow> map g (fst st') = map g (fst st)"
proof (induction ks arbitrary: st)
  case Nil
  then show ?case by simp
next
  case (Cons k ks)
  show ?case
  proof (cases "visited (fst st ! k)")
    case True
    then show ?thesis using Cons by simp
  next
    case False
    then obtain st1 where st1: "visit_all lc m cm st [nid (fst st ! k)] = Some st1" "sweep lc m cm ks st1 = Some st'"
      using Cons.prems by (auto split: Option.bind_splits)
    show ?thesis using Cons.IH[OF st1(2)] visit_all_frame[where g = g, OF g st1(1)] by simp
  qed
qed

lemma visit_all_annot:
  "visit_all lc m cm st ids = Some st' \<Longrightarrow> map strip_annot (fst st') = map strip_annot (fst st)"
  by (rule visit_all_frame[where g = strip_annot]) (simp_all add: strip_annot_def)

lemma sweep_annot:
  "sweep lc m cm ks st = Some st' \<Longrightarrow> map strip_annot (fst st') = map strip_annot (fst st)"
  by (rule sweep_frame[where g = strip_annot]) (simp_all add: strip_annot_def)

lemma calcTreeDepths_annot:
  assumes "calcTreeDepths lc ns es = Some ns'"
  shows "map strip_annot ns' = map strip_annot ns"
proof (cases "ns = []")
  case True
  then show ?thesis using assms by (simp add: calcTreeDepths_def)
next
  case False
  let ?ns0 = "map reset_node ns"
  let ?m = "index_map ?ns0" and ?cm = "build_children ?ns0 es"
  let ?roots = "find_roots ?ns0 (build_incoming ?ns0 es)"
  obtain st1 st3 st4 where
    s1: "bfs_loop ?m ?cm (bfs_init ?roots ?ns0) = Some st1" and
    s3: "visit_all lc ?m ?cm (fallback_depths (fst st1), Map.empty)
           (map (\<lambda>r. nid (fallback_depths (fst st1) ! r))
              (sort_by (\<lambda>a b. lc (name (fallback_depths (fst st1) ! a)) (name (fallback_depths (fst st1) ! b))) ?roots)) = Some st3" and
    s4: "sweep lc ?m ?cm [0..<length ns] st3 = Some st4" and
    r: "ns' = assign_counts (max_depth (fallback_depths (fst st1))) (fst st4)"
    using assms False by (auto simp: calcTreeDepths_def Let_def split: Option.bind_splits)
  have "map strip_annot ns' = map strip_annot (fst st4)" by (simp add: r assign_counts_annot)
  also have "\<dots> = map strip_annot (fst st3)" using s4 by (rule sweep_annot)
  also have "\<dots> = map strip_annot (fallback_depths (fst st1))" using visit_all_annot[OF s3] by simp
  also have "\<dots> = map strip_annot (fst st1)" by (rule fallback_annot)
  also have "\<dots> = map strip_annot (fst (bfs_init ?roots ?ns0))" using s1 by (rule bfs_loop_annot)
  also have "\<dots> = map strip_annot ?ns0" by (rule bfs_init_annot)
  also have "\<dots> = map strip_annot ns" by (rule reset_annot)
  finally show ?thesis .
qed

lemma bfs_children_measure:
  assumes "finite (dom m)"
  shows "card (dom m - fst (snd (bfs_children m c cs st))) + length (snd (snd (bfs_children m c cs st)))
           \<le> card (dom m - fst (snd st)) + length (snd (snd st))"
  using assms
proof (induction m c cs st rule: bfs_children.induct)
  case (1 nodeMap cur st)
  then show ?case by simp
next
  case (2 nodeMap cur childId cs ns vis queue)
  show ?case
  proof (cases "childId \<in> vis")
    case True
    then show ?thesis using 2 by simp
  next
    case False
    show ?thesis
    proof (cases "nodeMap childId")
      case None
      then show ?thesis using 2 False by simp
    next
      case (Some child)
      let ?st1 = "(ns[child := (ns ! child)\<lparr>depth := depth (ns ! cur) + 1\<rparr>], insert childId vis, queue @ [child])"
      have fin: "finite (dom nodeMap - vis)" using "2.prems" by simp
      have "childId \<in> dom nodeMap - vis" using Some False by auto
      then have "Suc (card (dom nodeMap - vis - {childId})) = card (dom nodeMap - vis)"
        using fin by (rule card_Suc_Diff1[rotated])
      moreover have "dom nodeMap - vis - {childId} = dom nodeMap - insert childId vis" by auto
      ultimately have "card (dom nodeMap - insert childId vis) + length (queue @ [child])
                         = card (dom nodeMap - vis) + length queue" by simp
      moreover have "card (dom nodeMap - fst (snd (bfs_children nodeMap cur cs ?st1)))
                       + length (snd (snd (bfs_children nodeMap cur cs ?st1)))
                     \<le> card (dom nodeMap - insert childId vis) + length (queue @ [child])"
        using "2.IH"(3)[OF False Some "2.prems"] by simp
      ultimately show ?thesis using False Some by simp
    qed
  qed
qed

lemma bfs_loop_total:
  assumes "finite (dom m)"
  shows "\<exists>st'. bfs_loop m cm st = Some st'"
proof (induction "card (dom m - fst (snd st)) + length (snd (snd st))" arbitrary: st rule: less_induct)
  case less
  show ?case
  proof (cases "snd (snd st)")
    case Nil
    then have "bfs_loop m cm st = Some st" by (subst bfs_loop.simps) simp
    then show ?thesis by blast
  next
    case (Cons c rest)
    let ?st1 = "bfs_children m c (case cm (nid (fst st ! c)) of Some cs \<Rightarrow> cs | None \<Rightarrow> []) (fst st, fst (snd st), rest)"
    have "card (dom m - fst (snd ?st1)) + length (snd (snd ?st1))
            \<le> card (dom m - fst (snd st)) + length rest"
      using bfs_children_measure[OF assms, of c _ "(fst st, fst (snd st), rest)"] by simp
    then have "card (dom m - fst (snd ?st1)) + length (snd (snd ?st1))
            < card (dom m - fst (snd st)) + length (snd (snd st))"
      using Cons by simp
    then obtain st' where "bfs_loop m cm ?st1 = Some st'" using less by blast
    then have "bfs_loop m cm st = Some st'" using Cons by (subst bfs_loop.simps) simp
    then show ?thesis by blast
  qed
qed

lemma finite_dom_index_map: "finite (dom (index_map ns))"
  by (simp add: index_map_def finite_dom_map_of)

lemma valid_index_map: "valid_map (index_map ns) (length ns)"
  by (auto simp: valid_map_def dest: index_map_range)

lemma unvisited_mark:
  assumes "k < length ns" "\<not> visited (ns ! k)" "visited n'"
  shows "unvisited (ns[k := n']) < unvisited ns"
proof -
  have ns: "ns = take k ns @ ns ! k # drop (Suc k) ns" using assms(1) by (rule id_take_nth_drop)
  have "ns[k := n'] = take k ns @ n' # drop (Suc k) ns" using assms(1) by (rule upd_conv_take_nth_drop)
  then have "unvisited (ns[k := n']) = unvisited (take k ns) + unvisited (drop (Suc k) ns)"
    using assms(3) by (simp add: unvisited_def)
  moreover have "unvisited ns = unvisited (take k ns) + Suc (unvisited (drop (Suc k) ns))"
    using assms(2) by (subst ns) (simp add: unvisited_def)
  ultimately show ?thesis by simp
qed

lemma visit_all_total_aux:
  "\<forall>ids st. unvisited (fst st) \<le> n \<and> valid_map m (length (fst st)) \<longrightarrow>
     (\<exists>st'. visit_all lc m cm st ids = Some st' \<and> length (fst st') = length (fst st)
              \<and> unvisited (fst st') \<le> unvisited (fst st))"
proof (induction n)
  case 0
  show ?case
  proof (intro allI impI, elim conjE)
    fix ids :: "jsstring list" and st :: "node list \<times> (int \<rightharpoonup> int)"
    assume u: "unvisited (fst st) \<le> 0" and v: "valid_map m (length (fst st))"
    have allv: "visited (fst st ! k)" if "k < length (fst st)" for k
    proof (rule ccontr)
      assume "\<not> visited (fst st ! k)"
      then have "fst st ! k \<in> set (filter (\<lambda>n. \<not> visited n) (fst st))" using that by simp
      then have "filter (\<lambda>n. \<not> visited n) (fst st) \<noteq> []" by force
      then show False using u by (simp add: unvisited_def)
    qed
    show "\<exists>st'. visit_all lc m cm st ids = Some st' \<and> length (fst st') = length (fst st)
              \<and> unvisited (fst st') \<le> unvisited (fst st)"
    proof (induction ids)
      case Nil
      then show ?case by (subst visit_all.simps) simp
    next
      case (Cons i rest)
      show ?case
      proof (cases "m i")
        case None
        then show ?thesis using Cons by (subst visit_all.simps) simp
      next
        case (Some k)
        then have "k < length (fst st)" using v by (simp add: valid_map_def)
        then have "visited (fst st ! k)" by (rule allv)
        then show ?thesis using Cons Some by (subst visit_all.simps) simp
      qed
    qed
  qed
next
  case (Suc n)
  show ?case
  proof (intro allI impI, elim conjE)
    fix ids :: "jsstring list" and st :: "node list \<times> (int \<rightharpoonup> int)"
    assume u: "unvisited (fst st) \<le> Suc n" and v: "valid_map m (length (fst st))"
    then show "\<exists>st'. visit_all lc m cm st ids = Some st' \<and> length (fst st') = length (fst st)
              \<and> unvisited (fst st') \<le> unvisited (fst st)"
    proof (induction ids arbitrary: st)
      case Nil
      then show ?case by (subst visit_all.simps) simp
    next
      case (Cons i rest)
      have IHrest: "\<exists>st'. visit_all lc m cm st rest = Some st' \<and> length (fst st') = length (fst st)
              \<and> unvisited (fst st') \<le> unvisited (fst st)"
        using Cons.IH[OF Cons.prems] .
      show ?case
      proof (cases "m i")
        case None
        then show ?thesis using IHrest by (subst visit_all.simps) simp
      next
        case (Some k)
        have kl: "k < length (fst st)" using Some Cons.prems(2) by (simp add: valid_map_def)
        show ?thesis
        proof (cases "visited (fst st ! k)")
          case True
          then show ?thesis using IHrest Some by (subst visit_all.simps) simp
        next
          case False
          let ?d = "depth (fst st ! k)"
          let ?vi = "case snd st ?d of Some v \<Rightarrow> v | None \<Rightarrow> 0"
          let ?ns1 = "(fst st)[k := (fst st ! k)\<lparr>visited := True, vIndex := ?vi\<rparr>]"
          let ?st1 = "(?ns1, (snd st)(?d \<mapsto> ?vi + 1))"
          have lt: "unvisited ?ns1 < unvisited (fst st)" using kl False by (intro unvisited_mark) simp_all
          then have u1: "unvisited (fst ?st1) \<le> n" using Cons.prems(1) by simp
          have v1: "valid_map m (length (fst ?st1))" using Cons.prems(2) by simp
          obtain st2 where st2: "visit_all lc m cm ?st1 (sorted_children lc m cm ?ns1 i) = Some st2"
              "length (fst st2) = length (fst ?st1)" "unvisited (fst st2) \<le> unvisited (fst ?st1)"
            using Suc.IH u1 v1 by blast
          have u2: "unvisited (fst st2) \<le> n" using st2(3) u1 by simp
          have v2: "valid_map m (length (fst st2))" using st2(2) v1 by simp
          obtain st' where st': "visit_all lc m cm st2 rest = Some st'"
              "length (fst st') = length (fst st2)" "unvisited (fst st') \<le> unvisited (fst st2)"
            using Suc.IH u2 v2 by blast
          have "visit_all lc m cm st (i # rest) = Some st'"
            using Some False st2(1) st'(1) by (subst visit_all.simps) (simp add: Let_def)
          moreover have "length (fst st') = length (fst st)" using st'(2) st2(2) by simp
          moreover have "unvisited (fst st') \<le> unvisited (fst st)" using st'(3) st2(3) lt by simp
          ultimately show ?thesis by blast
        qed
      qed
    qed
  qed
qed

lemma visit_all_total:
  assumes "valid_map m (length (fst st))"
  shows "\<exists>st'. visit_all lc m cm st ids = Some st' \<and> length (fst st') = length (fst st)"
  using visit_all_total_aux[of "unvisited (fst st)" m lc cm] assms by blast

lemma sweep_total:
  "valid_map m (length (fst st)) \<Longrightarrow> \<exists>st'. sweep lc m cm ks st = Some st'"
proof (induction ks arbitrary: st)
  case Nil
  then show ?case by simp
next
  case (Cons k ks)
  show ?case
  proof (cases "visited (fst st ! k)")
    case True
    then show ?thesis using Cons by simp
  next
    case False
    obtain st1 where st1: "visit_all lc m cm st [nid (fst st ! k)] = Some st1" "length (fst st1) = length (fst st)"
      using visit_all_total[OF Cons.prems] by blast
    then have "valid_map m (length (fst st1))" using Cons.prems by simp
    then obtain st' where "sweep lc m cm ks st1 = Some st'" using Cons.IH by blast
    then show ?thesis using False st1(1) by simp
  qed
qed

lemma length_of_annot: "map strip_annot a = map strip_annot b \<Longrightarrow> length a = length b"
  by (metis length_map)

lemma calcTreeDepths_total: "\<exists>ns'. calcTreeDepths lc ns es = Some ns'"
proof (cases "ns = []")
  case True
  then show ?thesis by (simp add: calcTreeDepths_def)
next
  case False
  let ?ns0 = "map reset_node ns"
  let ?m = "index_map ?ns0" and ?cm = "build_children ?ns0 es"
  let ?roots = "find_roots ?ns0 (build_incoming ?ns0 es)"
  obtain st1 where s1: "bfs_loop ?m ?cm (bfs_init ?roots ?ns0) = Some st1"
    using bfs_loop_total[OF finite_dom_index_map] by blast
  have l1: "length (fst st1) = length ?ns0"
    using bfs_loop_annot[OF s1] bfs_init_annot[of ?roots ?ns0] by (metis length_of_annot)
  let ?ns2 = "fallback_depths (fst st1)"
  have l2: "length ?ns2 = length ?ns0" using l1 by (simp add: fallback_depths_def Let_def)
  have v: "valid_map ?m (length ?ns2)" using valid_index_map[of ?ns0] l2 by simp
  obtain st3 where s3: "visit_all lc ?m ?cm (?ns2, Map.empty)
           (map (\<lambda>r. nid (?ns2 ! r)) (sort_by (\<lambda>a b. lc (name (?ns2 ! a)) (name (?ns2 ! b))) ?roots)) = Some st3"
      "length (fst st3) = length ?ns2"
    using visit_all_total[of ?m "(?ns2, Map.empty)"] v by fastforce
  have "valid_map ?m (length (fst st3))" using v s3(2) by simp
  then obtain st4 where s4: "sweep lc ?m ?cm [0..<length ns] st3 = Some st4"
    using sweep_total by blast
  show ?thesis using False s1 s3(1) s4 by (simp add: calcTreeDepths_def Let_def)
qed

lemma reset_of_annot:
  assumes "map strip_annot a = map strip_annot b"
  shows "map reset_node a = map reset_node b"
proof -
  have r: "map reset_node xs = map reset_node (map strip_annot xs)" for xs
    by (simp add: reset_node_def strip_annot_def)
  show ?thesis using assms r[of a] r[of b] by simp
qed

lemma calc_reset:
  assumes "map reset_node ns' = map reset_node ns"
  shows "calcTreeDepths lc ns' es = calcTreeDepths lc ns es"
proof (cases "ns = []")
  case True
  then have "ns' = []" using assms by simp
  then show ?thesis using True by simp
next
  case False
  have len: "length ns' = length ns" using assms by (metis length_map)
  then have ne: "ns' \<noteq> []" using False by auto
  show ?thesis
    unfolding calcTreeDepths_def by (simp only: False ne assms len if_False)
qed

text \<open>
  C5. For every node array and edge list, \<open>_calcTreeDepths\<close> returns, and running it again on
  its own result returns the same array: depth, sibling index, sibling count and maximal depth
  of every node are what the first run left. The result does not depend on the annotation
  fields of the input at all, since they are reset first: two arrays that differ only in
  annotations are mapped to the same result.
\<close>

theorem C5_depth_idempotent:
  "(\<exists>ns'. calcTreeDepths lc ns es = Some ns' \<and> calcTreeDepths lc ns' es = Some ns')
   \<and> (\<forall>ns2. map strip_annot ns2 = map strip_annot ns \<longrightarrow> calcTreeDepths lc ns2 es = calcTreeDepths lc ns es)"
proof -
  obtain ns' where r: "calcTreeDepths lc ns es = Some ns'" using calcTreeDepths_total by blast
  have "map strip_annot ns' = map strip_annot ns" using r by (rule calcTreeDepths_annot)
  then have "calcTreeDepths lc ns' es = calcTreeDepths lc ns es"
    by (intro calc_reset reset_of_annot)
  moreover have "calcTreeDepths lc ns2 es = calcTreeDepths lc ns es"
    if "map strip_annot ns2 = map strip_annot ns" for ns2
    using that by (intro calc_reset reset_of_annot)
  ultimately show ?thesis using r by auto
qed

lemma scen_eval:
  "map_option (map annot) (calcTreeDepths codeunit_order scen_nodes scen_edges)
     = Some [(0, 0, 1, 2), (1, 0, 2, 2), (1, 1, 2, 2), (2, 0, 1, 2)]"
  by code_simp

text \<open>
  C5 at the four-node tree root, A, B, C of the specification, also started from stale
  annotations.
\<close>

theorem C5_witness:
  "\<exists>ns'. calcTreeDepths codeunit_order scen_nodes scen_edges = Some ns'
      \<and> calcTreeDepths codeunit_order ns' scen_edges = Some ns'
      \<and> map annot ns' = [(0, 0, 1, 2), (1, 0, 2, 2), (1, 1, 2, 2), (2, 0, 1, 2)]
      \<and> calcTreeDepths codeunit_order (map (\<lambda>n. n\<lparr>depth := 7, vIndex := 3, visited := True\<rparr>) scen_nodes) scen_edges
          = Some ns'"
proof -
  from C5_depth_idempotent[of codeunit_order scen_nodes scen_edges]
  obtain ns' where r: "calcTreeDepths codeunit_order scen_nodes scen_edges = Some ns'"
      "calcTreeDepths codeunit_order ns' scen_edges = Some ns'"
    and st: "\<forall>ns2. map strip_annot ns2 = map strip_annot scen_nodes \<longrightarrow>
               calcTreeDepths codeunit_order ns2 scen_edges = calcTreeDepths codeunit_order scen_nodes scen_edges"
    by blast
  have "map strip_annot (map (\<lambda>n. n\<lparr>depth := 7, vIndex := 3, visited := True\<rparr>) scen_nodes) = map strip_annot scen_nodes"
    by (simp add: strip_annot_def)
  then have "calcTreeDepths codeunit_order (map (\<lambda>n. n\<lparr>depth := 7, vIndex := 3, visited := True\<rparr>) scen_nodes) scen_edges
               = calcTreeDepths codeunit_order scen_nodes scen_edges"
    by (rule st[rule_format])
  then have a: "calcTreeDepths codeunit_order (map (\<lambda>n. n\<lparr>depth := 7, vIndex := 3, visited := True\<rparr>) scen_nodes) scen_edges = Some ns'"
    by (simp only: r(1))
  have b: "map annot ns' = [(0, 0, 1, 2), (1, 0, 2, 2), (1, 1, 2, 2), (2, 0, 1, 2)]"
    using scen_eval by (simp only: r(1) option.map option.inject)
  show ?thesis by (intro exI[of _ ns'] conjI r a b)
qed

lemma strip_annot_nth:
  assumes "map strip_annot a = map strip_annot b" "k < length b"
  shows "strip_annot (a ! k) = strip_annot (b ! k)"
proof -
  have "length a = length b" using assms(1) by (rule length_of_annot)
  then show ?thesis using assms by (metis nth_map)
qed

lemma strip_annot_fields:
  assumes "strip_annot a = strip_annot b"
  shows "x_pos a = x_pos b" "y_pos a = y_pos b" "vx a = vx b" "vy a = vy b" "nid a = nid b"
proof -
  have "x_pos (strip_annot a) = x_pos (strip_annot b)" "y_pos (strip_annot a) = y_pos (strip_annot b)"
    "vx (strip_annot a) = vx (strip_annot b)" "vy (strip_annot a) = vy (strip_annot b)"
    "nid (strip_annot a) = nid (strip_annot b)"
    using assms by simp_all
  then show "x_pos a = x_pos b" "y_pos a = y_pos b" "vx a = vx b" "vy a = vy b" "nid a = nid b"
    by (simp_all add: strip_annot_def)
qed

text \<open>
  C8 (as amended). The call \<open>applyStrictLayout({onlyUnpositioned: true})\<close> returns, keeps the
  node array's length and ids, and leaves \<open>x\<close>, \<open>y\<close>, \<open>vx\<close> and \<open>vy\<close> of every node that had a
  position (non-null and not the origin) exactly as they were; only nodes without a position
  are placed. This holds in every engine state, so also after one node was added to a settled graph.
\<close>

theorem C8_strict_partial_update:
  "\<exists>s'. applyStrictLayout lc (Arg_object (Prop_bool True)) s = Some s' \<and> length (nodes s') = length (nodes s)
      \<and> (\<forall>k. k < length (nodes s) \<and> hasPos (nodes s ! k) \<longrightarrow>
             x_pos (nodes s' ! k) = x_pos (nodes s ! k) \<and> y_pos (nodes s' ! k) = y_pos (nodes s ! k)
             \<and> vx (nodes s' ! k) = vx (nodes s ! k) \<and> vy (nodes s' ! k) = vy (nodes s ! k))
      \<and> (\<forall>k. k < length (nodes s) \<longrightarrow> nid (nodes s' ! k) = nid (nodes s ! k))"
proof (cases "nodes s = []")
  case True
  then show ?thesis by (simp add: applyStrictLayout_def)
next
  case False
  obtain ns1 where c: "calcTreeDepths lc (nodes s) (edges s) = Some ns1"
    using calcTreeDepths_total by blast
  have fr: "map strip_annot ns1 = map strip_annot (nodes s)" using c by (rule calcTreeDepths_annot)
  have len: "length ns1 = length (nodes s)" using fr by (rule length_of_annot)
  let ?s' = "s\<lparr>nodes := map (place_strict True) ns1\<rparr>"
  have r: "applyStrictLayout lc (Arg_object (Prop_bool True)) s = Some ?s'"
    using False c by (simp add: applyStrictLayout_def)
  have f: "x_pos (ns1 ! k) = x_pos (nodes s ! k)" "y_pos (ns1 ! k) = y_pos (nodes s ! k)"
      "vx (ns1 ! k) = vx (nodes s ! k)" "vy (ns1 ! k) = vy (nodes s ! k)" "nid (ns1 ! k) = nid (nodes s ! k)"
    if "k < length (nodes s)" for k
    using strip_annot_nth[OF fr that] by (rule strip_annot_fields)+
  have keep: "x_pos (nodes ?s' ! k) = x_pos (nodes s ! k) \<and> y_pos (nodes ?s' ! k) = y_pos (nodes s ! k)
             \<and> vx (nodes ?s' ! k) = vx (nodes s ! k) \<and> vy (nodes ?s' ! k) = vy (nodes s ! k)"
    if k: "k < length (nodes s)" "hasPos (nodes s ! k)" for k
  proof -
    have "hasPos (ns1 ! k)" using k f[OF k(1)] by (simp add: hasPos_def)
    then have "place_strict True (ns1 ! k) = ns1 ! k" by (simp add: place_strict_def)
    then show ?thesis using k(1) len f[OF k(1)] by simp
  qed
  have ids: "nid (nodes ?s' ! k) = nid (nodes s ! k)" if k: "k < length (nodes s)" for k
    using k len f(5)[OF k] by (simp add: place_strict_def Let_def)
  show ?thesis
    using r len keep ids by (intro exI[of _ ?s']) simp
qed

lemma settled_eval:
  "map_option (\<lambda>s'. map (\<lambda>n. (x_pos n, y_pos n)) (nodes s'))
     (applyStrictLayout codeunit_order (Arg_object (Prop_bool True)) settled_layout)
     = Some [(Some 0, Some 0), (Some 310, Some (- 42)), (Some 300, Some 50), (Some 600, Some 0)]"
  by code_simp

text \<open>
  C8 at a settled graph root, A, B, where A and B were moved, after the new node N was added
  below A: only N is placed (at depth 2), and the root, which sits at the origin, is placed there again.
\<close>

theorem C8_witness:
  "\<exists>s'. applyStrictLayout codeunit_order (Arg_object (Prop_bool True)) settled_layout = Some s'
      \<and> x_pos (nodes s' ! 1) = Some 310 \<and> y_pos (nodes s' ! 1) = Some (- 42)
      \<and> x_pos (nodes s' ! 2) = Some 300 \<and> y_pos (nodes s' ! 2) = Some 50
      \<and> map (\<lambda>n. (x_pos n, y_pos n)) (nodes s')
           = [(Some 0, Some 0), (Some 310, Some (- 42)), (Some 300, Some 50), (Some 600, Some 0)]"
proof -
  from C8_strict_partial_update[of codeunit_order settled_layout]
  obtain s' where r: "applyStrictLayout codeunit_order (Arg_object (Prop_bool True)) settled_layout = Some s'"
    and keep: "\<forall>k. k < length (nodes settled_layout) \<and> hasPos (nodes settled_layout ! k) \<longrightarrow>
             x_pos (nodes s' ! k) = x_pos (nodes settled_layout ! k) \<and> y_pos (nodes s' ! k) = y_pos (nodes settled_layout ! k)
             \<and> vx (nodes s' ! k) = vx (nodes settled_layout ! k) \<and> vy (nodes s' ! k) = vy (nodes settled_layout ! k)"
    by blast
  have h1: "1 < length (nodes settled_layout) \<and> hasPos (nodes settled_layout ! 1)"
    and h2: "2 < length (nodes settled_layout) \<and> hasPos (nodes settled_layout ! 2)"
    by (simp_all add: settled_layout_def hasPos_def)
  have v1: "x_pos (nodes settled_layout ! 1) = Some 310" "y_pos (nodes settled_layout ! 1) = Some (- 42)"
    and v2: "x_pos (nodes settled_layout ! 2) = Some 300" "y_pos (nodes settled_layout ! 2) = Some 50"
    by (simp_all add: settled_layout_def)
  note k1 = keep[rule_format, OF h1] and k2 = keep[rule_format, OF h2]
  have a1: "x_pos (nodes s' ! 1) = Some 310" using k1 by (simp only: v1)
  have a2: "y_pos (nodes s' ! 1) = Some (- 42)" using k1 by (simp only: v1)
  have b1: "x_pos (nodes s' ! 2) = Some 300" using k2 by (simp only: v2)
  have b2: "y_pos (nodes s' ! 2) = Some 50" using k2 by (simp only: v2)
  have c: "map (\<lambda>n. (x_pos n, y_pos n)) (nodes s')
           = [(Some 0, Some 0), (Some 310, Some (- 42)), (Some 300, Some 50), (Some 600, Some 0)]"
    using settled_eval by (simp only: r option.map option.inject)
  show ?thesis by (intro exI[of _ s'] conjI r a1 a2 b1 b2 c)
qed

lemma plain_true_eval:
  "map_option (\<lambda>s'. map (\<lambda>n. (x_pos n, y_pos n)) (nodes s'))
     (applyStrictLayout codeunit_order (Arg_bool True) settled_layout)
     = Some [(Some 0, Some 0), (Some 300, Some (- 50)), (Some 300, Some 50), (Some 600, Some 0)]"
  by code_simp

text \<open>
  C8 as stated fails: the call \<open>applyStrictLayout(true)\<close> passes a boolean where the options
  object is expected, the flag is read as false, and every node is placed again. In the settled
  graph above, A had the position (310, -42) and is moved to (300, -50).
\<close>

theorem C8_counterexample:
  "hasPos (nodes settled_layout ! 1)
   \<and> (x_pos (nodes settled_layout ! 1), y_pos (nodes settled_layout ! 1)) = (Some 310, Some (- 42))
   \<and> map_option (\<lambda>s'. (x_pos (nodes s' ! 1), y_pos (nodes s' ! 1)))
         (applyStrictLayout codeunit_order (Arg_bool True) settled_layout) = Some (Some 300, Some (- 50))"
proof -
  have a: "hasPos (nodes settled_layout ! 1)"
    and b: "(x_pos (nodes settled_layout ! 1), y_pos (nodes settled_layout ! 1)) = (Some 310, Some (- 42))"
    by (simp_all add: settled_layout_def hasPos_def)
  obtain s' where r: "applyStrictLayout codeunit_order (Arg_bool True) settled_layout = Some s'"
    using plain_true_eval by (cases "applyStrictLayout codeunit_order (Arg_bool True) settled_layout") simp_all
  have m: "map (\<lambda>n. (x_pos n, y_pos n)) (nodes s')
           = [(Some 0, Some 0), (Some 300, Some (- 50)), (Some 300, Some 50), (Some 600, Some 0)]"
    using plain_true_eval by (simp only: r option.map option.inject)
  have "length (map (\<lambda>n. (x_pos n, y_pos n)) (nodes s')) = 4" by (simp only: m) simp
  then have len: "1 < length (nodes s')" by simp
  have "map (\<lambda>n. (x_pos n, y_pos n)) (nodes s') ! 1 = (Some 300, Some (- 50))" by (simp only: m) simp
  then have "(x_pos (nodes s' ! 1), y_pos (nodes s' ! 1)) = (Some 300, Some (- 50))"
    by (simp only: nth_map[OF len])
  then have c: "map_option (\<lambda>s'. (x_pos (nodes s' ! 1), y_pos (nodes s' ! 1)))
         (applyStrictLayout codeunit_order (Arg_bool True) settled_layout) = Some (Some 300, Some (- 50))"
    by (simp add: r)
  show ?thesis by (intro conjI a b c)
qed

end
